theory Spec2Isabelle
  imports Complex_Main
begin

section \<open>JavaScript numbers\<close>

text \<open>
  A JavaScript \<open>number\<close> is a binary64 value: a finite value, one of the two
  infinities, or \<open>NaN\<close>. A finite value is modelled by the real it denotes; the sign of
  zero is not modelled. The operations below are the ones the source applies to numbers:
  each computes the exact real result and rounds it to binary64 (to nearest, ties to
  even, overflowing to an infinity), and gives what ECMAScript gives when an operand is
  not finite.
\<close>

datatype num = Fin real | PInf | NInf | NaN

fun num_sgn :: "num \<Rightarrow> real" where
  "num_sgn (Fin a) = sgn a"
| "num_sgn PInf = 1"
| "num_sgn NInf = - 1"
| "num_sgn NaN = 0"

definition inf_of_sign :: "real \<Rightarrow> num" where
  "inf_of_sign s = (if 0 < s then PInf else if s < 0 then NInf else NaN)"

fun num_neg :: "num \<Rightarrow> num" where
  "num_neg (Fin a) = Fin (- a)"
| "num_neg PInf = NInf"
| "num_neg NInf = PInf"
| "num_neg NaN = NaN"

fun num_lt :: "num \<Rightarrow> num \<Rightarrow> bool" where
  "num_lt (Fin a) (Fin b) = (a < b)"
| "num_lt NaN y = False"
| "num_lt x NaN = False"
| "num_lt x NInf = False"
| "num_lt PInf y = False"
| "num_lt x y = True"

subsection \<open>Rounding\<close>

text \<open>Rounding a real to the nearest integer, a tie going to the even one.\<close>

definition rne :: "real \<Rightarrow> int" where
  "rne s = (let f = \<lfloor>s\<rfloor> in
             if s - of_int f < 1 / 2 then f
             else if 1 / 2 < s - of_int f then f + 1
             else if even f then f else f + 1)"

definition pow2 :: "int \<Rightarrow> real" where
  "pow2 k = 2 powr of_int k"

text \<open>
  The exponent of the binade of \<open>x\<close>, the \<open>e\<close> with \<open>2^e \<le> |x| < 2^(e+1)\<close>, but
  not below the least exponent \<open>emin\<close> of the format (the subnormal range).
\<close>

definition binade :: "int \<Rightarrow> real \<Rightarrow> int" where
  "binade emin x = (if x = 0 then emin else max \<lfloor>log 2 \<bar>x\<bar>\<rfloor> emin)"

text \<open>
  Rounding to a binary format with \<open>p\<close> significand bits and exponents from \<open>emin\<close>
  to \<open>emax\<close>: the nearest multiple of the unit in the last place of the binade, and an
  infinity when that reaches \<open>2^(emax+1)\<close>.
\<close>

definition round_val :: "nat \<Rightarrow> int \<Rightarrow> real \<Rightarrow> real" where
  "round_val p emin x =
     (let q = binade emin x - int p + 1
      in of_int (rne (x / pow2 q)) * pow2 q)"

definition overflow :: "int \<Rightarrow> real \<Rightarrow> num" where
  "overflow emax y =
     (if pow2 (emax + 1) \<le> \<bar>y\<bar> then (if 0 < y then PInf else NInf) else Fin y)"

definition round_to :: "nat \<Rightarrow> int \<Rightarrow> int \<Rightarrow> real \<Rightarrow> num" where
  "round_to p emin emax x = overflow emax (round_val p emin x)"

text \<open>binary64, the format of a \<open>number\<close>.\<close>

definition round64 :: "real \<Rightarrow> num" where
  "round64 x = round_to 53 (- 1022) 1023 x"

text \<open>A decimal literal of the source denotes the binary64 value nearest to it.\<close>

definition lit :: "real \<Rightarrow> num" where
  "lit c = round64 c"

text \<open>
  \<open>Math.fround\<close>, the rounding to binary32 that a store into a \<open>Float32Array\<close>
  applies.
\<close>

fun fround :: "num \<Rightarrow> num" where
  "fround (Fin x) = round_to 24 (- 126) 127 x"
| "fround v = v"

subsection \<open>Arithmetic\<close>

fun num_add :: "num \<Rightarrow> num \<Rightarrow> num" where
  "num_add (Fin a) (Fin b) = round64 (a + b)"
| "num_add NaN y = NaN"
| "num_add x NaN = NaN"
| "num_add PInf NInf = NaN"
| "num_add NInf PInf = NaN"
| "num_add PInf y = PInf"
| "num_add x PInf = PInf"
| "num_add NInf y = NInf"
| "num_add x NInf = NInf"

definition num_sub :: "num \<Rightarrow> num \<Rightarrow> num" where
  "num_sub x y = num_add x (num_neg y)"

fun num_mul :: "num \<Rightarrow> num \<Rightarrow> num" where
  "num_mul (Fin a) (Fin b) = round64 (a * b)"
| "num_mul x y = inf_of_sign (num_sgn x * num_sgn y)"

text \<open>A zero divisor is taken as \<open>+0\<close>; every divisor in the source is a non-zero number.\<close>

fun num_div :: "num \<Rightarrow> num \<Rightarrow> num" where
  "num_div (Fin a) (Fin b) = (if b = 0 then inf_of_sign (sgn a) else round64 (a / b))"
| "num_div NaN y = NaN"
| "num_div x NaN = NaN"
| "num_div (Fin a) y = Fin 0"
| "num_div x (Fin b) = inf_of_sign (num_sgn x * (if b < 0 then - 1 else 1))"
| "num_div x y = NaN"

text \<open>\<open>Math.max\<close> and \<open>Math.min\<close> return \<open>NaN\<close> as soon as one argument is \<open>NaN\<close>.\<close>

definition Math_max :: "num \<Rightarrow> num \<Rightarrow> num" where
  "Math_max x y = (if x = NaN \<or> y = NaN then NaN else if num_lt x y then y else x)"

definition Math_min :: "num \<Rightarrow> num \<Rightarrow> num" where
  "Math_min x y = (if x = NaN \<or> y = NaN then NaN else if num_lt y x then y else x)"

text \<open>
  \<open>Math.cos\<close> and \<open>Math.pow\<close> are implementation-approximated in ECMAScript; they are
  taken as correctly rounded.
\<close>

fun Math_cos :: "num \<Rightarrow> num" where
  "Math_cos (Fin a) = round64 (cos a)"
| "Math_cos x = NaN"

text \<open>
  \<open>Math.pow\<close> with a finite exponent: the exponent zero gives 1 for every base, a
  negative base has a power only for an integer exponent.
\<close>

definition is_int :: "real \<Rightarrow> bool" where
  "is_int e = (e = of_int \<lfloor>e\<rfloor>)"

definition is_odd_int :: "real \<Rightarrow> bool" where
  "is_odd_int e = (is_int e \<and> odd \<lfloor>e\<rfloor>)"

fun Math_pow :: "num \<Rightarrow> real \<Rightarrow> num" where
  "Math_pow (Fin x) e =
     (if e = 0 then Fin 1
      else if 0 < x then round64 (x powr e)
      else if x = 0 then (if 0 < e then Fin 0 else PInf)
      else if is_int e then round64 ((if is_odd_int e then - 1 else 1) * ((- x) powr e))
      else NaN)"
| "Math_pow PInf e = (if e = 0 then Fin 1 else if 0 < e then PInf else Fin 0)"
| "Math_pow NInf e =
     (if e = 0 then Fin 1
      else if 0 < e then (if is_odd_int e then NInf else PInf)
      else Fin 0)"
| "Math_pow NaN e = (if e = 0 then Fin 1 else NaN)"

section \<open>Utilities\<close>

text \<open>\<open>clamp(n, min, max) = Math.max(min, Math.min(max, n))\<close>\<close>

definition clamp :: "num \<Rightarrow> num \<Rightarrow> num \<Rightarrow> num" where
  "clamp n mn mx = Math_max mn (Math_min mx n)"

text \<open>
  The simplified Viridis colour map. The coefficient arrays \<open>a\<close>, \<open>b\<close>, \<open>c\<close> and the
  exponent arrays \<open>d\<close>, \<open>e\<close> are those of the source; each channel is
  \<open>a[k] + b[k] * Math.pow(t, d[k]) + c[k] * Math.pow(t, e[k])\<close>, clamped into \<open>[0, 1]\<close>
  by \<open>Math.min(1, Math.max(0, _))\<close>.
\<close>

definition channel :: "real \<Rightarrow> real \<Rightarrow> real \<Rightarrow> real \<Rightarrow> real \<Rightarrow> num \<Rightarrow> num" where
  "channel a b c d e t =
     num_add (num_add (lit a) (num_mul (lit b) (Math_pow t d))) (num_mul (lit c) (Math_pow t e))"

definition viridis :: "num \<Rightarrow> num \<times> num \<times> num" where
  "viridis t =
     (let r = channel 0.280268 0.23393 0.043831 2.0 0.0 t;
          g = channel 0.165368 0.472705 0.530361 1.5 0.5 t;
          bl = channel 0.476043 0.310964 0.393395 1.0 1.0 t
      in (Math_min (Fin 1) (Math_max (Fin 0) r),
          Math_min (Fin 1) (Math_max (Fin 0) g),
          Math_min (Fin 1) (Math_max (Fin 0) bl)))"

definition MAX_DIM :: real where
  "MAX_DIM = 1200"

definition MAX_VERTICES :: int where
  "MAX_VERTICES = 1500000"

section \<open>The decimation planner\<close>

text \<open>
  \<open>calcSteps(r, c, maxDim)\<close>. The grid dimensions are integers; \<open>maxDim\<close> is a finite
  non-zero number (the only caller passes \<open>clamp(maxDim, 100, MAX_DIM)\<close>).
  The \<open>while\<close> loop tests \<open>estRows * estCols * 2 > MAX_VERTICES\<close>, increments
  \<open>factor\<close> and leaves by \<open>break\<close> once \<open>factor > 20\<close>; \<open>estRows\<close> and \<open>estCols\<close>
  are constants of the function, computed before the loop.
\<close>

record steps =
  stepY :: int
  stepX :: int

function factor_loop :: "int \<Rightarrow> int \<Rightarrow> int \<Rightarrow> int" where
  "factor_loop estRows estCols factor =
     (if estRows * estCols * 2 > MAX_VERTICES
      then (let factor' = factor + 1
            in if factor' > 20 then factor' else factor_loop estRows estCols factor')
      else factor)"
  by pat_completeness auto
termination
  by (relation "measure (\<lambda>(estRows, estCols, factor). nat (21 - factor))") auto

definition calcSteps :: "int \<Rightarrow> int \<Rightarrow> real \<Rightarrow> steps" where
  "calcSteps r c maxDim =
     (let sy = max 1 \<lceil>of_int r / maxDim\<rceil>;
          sx = max 1 \<lceil>of_int c / maxDim\<rceil>;
          estRows = \<lceil>of_int r / (of_int sy :: real)\<rceil>;
          estCols = \<lceil>of_int c / (of_int sx :: real)\<rceil>;
          factor = factor_loop estRows estCols 1
      in \<lparr>stepY = sy * factor, stepX = sx * factor\<rparr>)"

text \<open>The down-sampled length of an axis, \<open>Math.ceil(n / step)\<close>.\<close>

definition decimated :: "int \<Rightarrow> int \<Rightarrow> int" where
  "decimated n step = \<lceil>of_int n / (of_int step :: real)\<rceil>"

section \<open>Typed arrays\<close>

text \<open>
  Reading an array outside its bounds gives \<open>undefined\<close> (here \<open>None\<close>); \<open>undefined\<close>
  used as an index gives \<open>undefined\<close> again, and used as a number gives \<open>NaN\<close>.
  A store outside the bounds of a typed array is ignored, as \<open>xs[i := v]\<close> is, and a
  store into a \<open>Float32Array\<close> rounds the number to binary32.
  The input arrays hold finite numbers.
\<close>

definition arr_get :: "'a list \<Rightarrow> int \<Rightarrow> 'a option" where
  "arr_get xs i = (if 0 \<le> i \<and> i < int (length xs) then Some (xs ! nat i) else None)"

definition num_at :: "real list \<Rightarrow> int option \<Rightarrow> num" where
  "num_at xs i =
     (case i of None \<Rightarrow> NaN
      | Some k \<Rightarrow> (case arr_get xs k of None \<Rightarrow> NaN | Some v \<Rightarrow> Fin v))"

definition buf_get :: "num list \<Rightarrow> nat \<Rightarrow> num" where
  "buf_get xs i = (if i < length xs then xs ! i else NaN)"

definition Float32_set :: "num list \<Rightarrow> nat \<Rightarrow> num \<Rightarrow> num list" where
  "Float32_set xs i v = xs[i := fround v]"

section \<open>The solid mesh builder\<close>

text \<open>
  The index lookup tables:
  \<open>for (let i = 0, v = 0; i < rows1; i++, v += stepY) rowsIdx[i] = Math.min(v, R - 1)\<close>
  on a fresh \<open>Int32Array(rows1)\<close>.
\<close>

definition index_table :: "int \<Rightarrow> int \<Rightarrow> int \<Rightarrow> int list" where
  "index_table n step lastIdx =
     fst (fold (\<lambda>i (arr, v). (arr[i := min v lastIdx], v + step))
            [0..<nat n] (replicate (nat n) 0, 0))"

text \<open>\<open>getZ(i, j) = Number(Z[i * C + j]) * exag\<close>\<close>

definition flat_index :: "int option \<Rightarrow> int \<Rightarrow> int option \<Rightarrow> int option" where
  "flat_index i C j =
     (case i of None \<Rightarrow> None
      | Some a \<Rightarrow> (case j of None \<Rightarrow> None | Some b \<Rightarrow> Some (a * C + b)))"

definition getZ :: "real list \<Rightarrow> int \<Rightarrow> real \<Rightarrow> int option \<Rightarrow> int option \<Rightarrow> num" where
  "getZ Z C exag i j = num_mul (num_at Z (flat_index i C j)) (Fin exag)"

text \<open>
  The scan for the lowest and highest sampled elevation, from \<open>Infinity\<close> and
  \<open>-Infinity\<close>. The state is the pair \<open>(zMinSurface, zMaxSurface)\<close>.
\<close>

definition scan_step :: "num \<Rightarrow> num \<times> num \<Rightarrow> num \<times> num" where
  "scan_step z s =
     (case s of (zMinSurface, zMaxSurface) \<Rightarrow>
        (if num_lt z zMinSurface then z else zMinSurface,
         if num_lt zMaxSurface z then z else zMaxSurface))"

definition surface_range ::
  "real list \<Rightarrow> int \<Rightarrow> real \<Rightarrow> int list \<Rightarrow> int list \<Rightarrow> int \<Rightarrow> int \<Rightarrow> num \<times> num" where
  "surface_range Z C exag rowsIdx colsIdx rows1 cols1 =
     fold (\<lambda>ii. let i0 = arr_get rowsIdx (int ii) in
             fold (\<lambda>jj. let j0 = arr_get colsIdx (int jj) in scan_step (getZ Z C exag i0 j0))
               [0..<nat cols1])
       [0..<nat rows1] (PInf, NInf)"

text \<open>
  The two output buffers, both a \<open>Float32Array\<close>, with their write cursors \<open>p\<close>
  and \<open>ci\<close>; \<open>positions[p++] = v\<close> and \<open>colors[ci++] = v\<close>.
\<close>

record buffers =
  positions :: "num list"
  colors :: "num list"
  cursor_p :: nat
  cursor_ci :: nat

definition push_pos :: "num \<Rightarrow> buffers \<Rightarrow> buffers" where
  "push_pos v b =
     b\<lparr>positions := Float32_set (positions b) (cursor_p b) v, cursor_p := cursor_p b + 1\<rparr>"

definition push_col :: "num \<Rightarrow> buffers \<Rightarrow> buffers" where
  "push_col v b =
     b\<lparr>colors := Float32_set (colors b) (cursor_ci b) v, cursor_ci := cursor_ci b + 1\<rparr>"

text \<open>The top surface: one vertex per sampled point, coloured black for now.\<close>

definition top_vertex ::
  "real list \<Rightarrow> real list \<Rightarrow> int \<Rightarrow> real \<Rightarrow> num \<Rightarrow> num \<Rightarrow> num \<Rightarrow>
   int option \<Rightarrow> int option \<Rightarrow> buffers \<Rightarrow> buffers" where
  "top_vertex lons Z C exag lon0 mPerDegLon y i0 j0 b =
     (let x = num_mul (num_sub (num_at lons j0) lon0) mPerDegLon;
          z = getZ Z C exag i0 j0;
          b = push_pos x b;
          b = push_pos y b;
          b = push_pos z b;
          b = push_col (Fin 0) b;
          b = push_col (Fin 0) b;
          b = push_col (Fin 0) b
      in b)"

definition top_loop ::
  "real list \<Rightarrow> real list \<Rightarrow> real list \<Rightarrow> int \<Rightarrow> real \<Rightarrow> num \<Rightarrow> num \<Rightarrow> num \<Rightarrow> num \<Rightarrow>
   int list \<Rightarrow> int list \<Rightarrow> int \<Rightarrow> int \<Rightarrow> buffers \<Rightarrow> buffers" where
  "top_loop lats lons Z C exag lat0 lon0 mPerDegLat mPerDegLon rowsIdx colsIdx rows1 cols1 =
     fold (\<lambda>ii. let i0 = arr_get rowsIdx (int ii);
                    y = num_mul (num_sub (num_at lats i0) lat0) mPerDegLat in
             fold (\<lambda>jj. let j0 = arr_get colsIdx (int jj) in
                     top_vertex lons Z C exag lon0 mPerDegLon y i0 j0)
               [0..<nat cols1])
       [0..<nat rows1]"

text \<open>
  The bottom plane: each vertex copies \<open>x\<close> and \<open>y\<close> from the position buffer at
  \<open>baseIdx = (ii * cols1 + jj) * 3\<close> and takes \<open>bottomZ\<close>; its colour is grey.
\<close>

definition bottom_vertex :: "num \<Rightarrow> nat \<Rightarrow> nat \<Rightarrow> nat \<Rightarrow> buffers \<Rightarrow> buffers" where
  "bottom_vertex bottomZ cols1 ii jj b =
     (let idxTop = ii * cols1 + jj;
          baseIdx = idxTop * 3;
          b = push_pos (buf_get (positions b) (baseIdx + 0)) b;
          b = push_pos (buf_get (positions b) (baseIdx + 1)) b;
          b = push_pos bottomZ b;
          b = push_col (lit 0.2) b;
          b = push_col (lit 0.2) b;
          b = push_col (lit 0.2) b
      in b)"

definition bottom_loop :: "num \<Rightarrow> int \<Rightarrow> int \<Rightarrow> buffers \<Rightarrow> buffers" where
  "bottom_loop bottomZ rows1 cols1 =
     fold (\<lambda>ii. fold (\<lambda>jj. bottom_vertex bottomZ (nat cols1) ii jj) [0..<nat cols1])
       [0..<nat rows1]"

text \<open>The colours of the top surface, by normalised elevation.\<close>

definition colour_vertex :: "num \<Rightarrow> num \<Rightarrow> nat \<Rightarrow> nat \<Rightarrow> nat \<Rightarrow> buffers \<Rightarrow> buffers" where
  "colour_vertex zMinSurface dz cols1 ii jj b =
     (let idxTop = ii * cols1 + jj;
          z = buf_get (positions b) (idxTop * 3 + 2);
          t = clamp (num_div (num_sub z zMinSurface) dz) (Fin 0) (Fin 1);
          ci2 = idxTop * 3
      in case viridis t of (r, g, bl) \<Rightarrow>
           b\<lparr>colors := Float32_set (Float32_set (Float32_set (colors b) ci2 r) (ci2 + 1) g)
                          (ci2 + 2) bl\<rparr>)"

definition colour_loop :: "num \<Rightarrow> num \<Rightarrow> int \<Rightarrow> int \<Rightarrow> buffers \<Rightarrow> buffers" where
  "colour_loop zMinSurface dz rows1 cols1 =
     fold (\<lambda>ii. fold (\<lambda>jj. colour_vertex zMinSurface dz (nat cols1) ii jj) [0..<nat cols1])
       [0..<nat rows1]"

text \<open>
  The triangles. \<open>top(r, c) = r * cols1 + c\<close> and
  \<open>bottom(r, c) = topVerts + r * cols1 + c\<close>; a loop \<open>for (i = 0; i < n; i++)\<close> runs over
  \<open>upto_excl n\<close>, and \<open>faces.push(...)\<close> appends.
\<close>

definition upto_excl :: "int \<Rightarrow> int list" where
  "upto_excl n = map int [0..<nat n]"

definition top_at :: "int \<Rightarrow> int \<Rightarrow> int \<Rightarrow> int" where
  "top_at cols1 r c = r * cols1 + c"

definition bottom_at :: "int \<Rightarrow> int \<Rightarrow> int \<Rightarrow> int \<Rightarrow> int" where
  "bottom_at topVerts cols1 r c = topVerts + r * cols1 + c"

definition top_faces :: "int \<Rightarrow> int \<Rightarrow> int list \<Rightarrow> int list" where
  "top_faces rows1 cols1 =
     fold (\<lambda>i. fold (\<lambda>j faces.
             let v0 = top_at cols1 i j;
                 v1 = top_at cols1 i (j + 1);
                 v2 = top_at cols1 (i + 1) j;
                 v3 = top_at cols1 (i + 1) (j + 1)
             in faces @ [v0, v1, v3, v0, v3, v2])
           (upto_excl (cols1 - 1)))
       (upto_excl (rows1 - 1))"

definition north_faces :: "int \<Rightarrow> int \<Rightarrow> int list \<Rightarrow> int list" where
  "north_faces topVerts cols1 =
     fold (\<lambda>j faces.
        let a = top_at cols1 0 j; b = top_at cols1 0 (j + 1);
            A = bottom_at topVerts cols1 0 j; B = bottom_at topVerts cols1 0 (j + 1)
        in faces @ [a, A, B, a, B, b])
       (upto_excl (cols1 - 1))"

definition south_faces :: "int \<Rightarrow> int \<Rightarrow> int \<Rightarrow> int list \<Rightarrow> int list" where
  "south_faces topVerts rows1 cols1 =
     fold (\<lambda>j faces.
        let a = top_at cols1 (rows1 - 1) j; b = top_at cols1 (rows1 - 1) (j + 1);
            A = bottom_at topVerts cols1 (rows1 - 1) j; B = bottom_at topVerts cols1 (rows1 - 1) (j + 1)
        in faces @ [a, b, B, a, B, A])
       (upto_excl (cols1 - 1))"

definition west_faces :: "int \<Rightarrow> int \<Rightarrow> int \<Rightarrow> int list \<Rightarrow> int list" where
  "west_faces topVerts rows1 cols1 =
     fold (\<lambda>i faces.
        let a = top_at cols1 i 0; b = top_at cols1 (i + 1) 0;
            A = bottom_at topVerts cols1 i 0; B = bottom_at topVerts cols1 (i + 1) 0
        in faces @ [a, A, B, a, B, b])
       (upto_excl (rows1 - 1))"

definition east_faces :: "int \<Rightarrow> int \<Rightarrow> int \<Rightarrow> int list \<Rightarrow> int list" where
  "east_faces topVerts rows1 cols1 =
     fold (\<lambda>i faces.
        let a = top_at cols1 i (cols1 - 1); b = top_at cols1 (i + 1) (cols1 - 1);
            A = bottom_at topVerts cols1 i (cols1 - 1); B = bottom_at topVerts cols1 (i + 1) (cols1 - 1)
        in faces @ [a, b, B, a, B, A])
       (upto_excl (rows1 - 1))"

definition bottom_faces :: "int \<Rightarrow> int \<Rightarrow> int \<Rightarrow> int list \<Rightarrow> int list" where
  "bottom_faces topVerts rows1 cols1 =
     fold (\<lambda>i. fold (\<lambda>j faces.
             let v0 = bottom_at topVerts cols1 i j;
                 v1 = bottom_at topVerts cols1 i (j + 1);
                 v2 = bottom_at topVerts cols1 (i + 1) j;
                 v3 = bottom_at topVerts cols1 (i + 1) (j + 1)
             in faces @ [v0, v3, v1, v0, v2, v3])
           (upto_excl (cols1 - 1)))
       (upto_excl (rows1 - 1))"

definition all_faces :: "int \<Rightarrow> int \<Rightarrow> int list" where
  "all_faces rows1 cols1 =
     (let topVerts = rows1 * cols1;
          faces = [];
          faces = top_faces rows1 cols1 faces;
          faces = north_faces topVerts cols1 faces;
          faces = south_faces topVerts rows1 cols1 faces;
          faces = west_faces topVerts rows1 cols1 faces;
          faces = east_faces topVerts rows1 cols1 faces;
          faces = bottom_faces topVerts rows1 cols1 faces
      in faces)"

text \<open>
  The builder's call of the planner, \<open>calcSteps(R, C, clamp(maxDim, 100, MAX_DIM))\<close>.
  \<open>maxDim\<close> is a finite number, so the clamped value is finite as well.
\<close>

definition plan_steps :: "int \<Rightarrow> int \<Rightarrow> real \<Rightarrow> steps" where
  "plan_steps R C maxDim =
     (case clamp (Fin maxDim) (Fin 100) (Fin MAX_DIM) of
        Fin m \<Rightarrow> calcSteps R C m
      | _ \<Rightarrow> \<lparr>stepY = 1, stepX = 1\<rparr>)"

text \<open>
  The result of \<open>buildSolidGeometry\<close>: the position and colour attributes and the index
  of the geometry, the down-sampled counts and \<open>bottomZ\<close>. The vertex normals and the
  bounding box (\<open>size\<close>) are computed from these by the THREE library and are not modelled.
  The shape holds the two array dimensions, which are natural numbers.
\<close>

record solid =
  geom_position :: "num list"
  geom_color :: "num list"
  geom_index :: "int list"
  res_rows1 :: int
  res_cols1 :: int
  res_bottomZ :: num

definition buildSolidGeometry ::
  "real list \<Rightarrow> real list \<Rightarrow> real list \<Rightarrow> nat \<times> nat \<Rightarrow> real \<Rightarrow> real \<Rightarrow> real \<Rightarrow> solid" where
  "buildSolidGeometry lats lons Z shape exag base maxDim =
     (let R = int (fst shape);
          C = int (snd shape);
          st = plan_steps R C maxDim;
          rows1 = decimated R (stepY st);
          cols1 = decimated C (stepX st);
          avgLatDeg = num_div (num_add (num_at lats (Some 0))
                                  (num_at lats (Some (int (length lats) - 1)))) (Fin 2);
          avgLatRad = num_div (num_mul avgLatDeg (lit pi)) (Fin 180);
          mPerDegLat = Fin 111320;
          mPerDegLon = num_mul (Fin 111320) (Math_cos avgLatRad);
          rowsIdx = index_table rows1 (stepY st) (R - 1);
          colsIdx = index_table cols1 (stepX st) (C - 1);
          lat0 = num_at lats (arr_get rowsIdx 0);
          lon0 = num_at lons (arr_get colsIdx 0);
          zr = surface_range Z C exag rowsIdx colsIdx rows1 cols1;
          zMinSurface = fst zr;
          zMaxSurface = snd zr;
          bottomZ = num_sub zMinSurface (Fin \<bar>base\<bar>);
          topVerts = rows1 * cols1;
          totalVerts = topVerts * 2;
          b = \<lparr>positions = replicate (nat (totalVerts * 3)) (Fin 0),
               colors = replicate (nat (totalVerts * 3)) (Fin 0),
               cursor_p = 0, cursor_ci = 0\<rparr>;
          b = top_loop lats lons Z C exag lat0 lon0 mPerDegLat mPerDegLon
                rowsIdx colsIdx rows1 cols1 b;
          b = bottom_loop bottomZ rows1 cols1 b;
          dz = Math_max (lit 0.000001) (num_sub zMaxSurface zMinSurface);
          b = colour_loop zMinSurface dz rows1 cols1 b;
          faces = all_faces rows1 cols1
      in \<lparr>geom_position = positions b, geom_color = colors b, geom_index = faces,
          res_rows1 = rows1, res_cols1 = cols1, res_bottomZ = bottomZ\<rparr>)"

section \<open>Export scaling\<close>

text \<open>
  \<open>scalePositionsFromGeometry\<close> reads the position attribute of a geometry and fills a
  new \<open>Float32Array\<close>. The typed arrays live in a store, a list of arrays addressed by
  position; \<open>new Float32Array(n)\<close> appends a zero-filled array and returns its address,
  and \<open>store_at\<close> is the store into such an array.
  A geometry holds the addresses of the arrays of its position and colour attributes and
  of its index. The position attribute has item size 3: \<open>pos.count\<close> is the number of
  whole items and \<open>getX(i)\<close>, \<open>getY(i)\<close>, \<open>getZ(i)\<close> read \<open>array[3 * i + 0, 1, 2]\<close>.
\<close>

type_synonym addr = nat

type_synonym store = "num list list"

record BufferGeometry =
  position :: addr
  color :: addr
  index :: addr

definition new_Float32Array :: "nat \<Rightarrow> store \<Rightarrow> addr \<times> store" where
  "new_Float32Array n h = (length h, h @ [replicate n (Fin 0)])"

definition load :: "store \<Rightarrow> addr \<Rightarrow> nat \<Rightarrow> num" where
  "load h a i = (if a < length h then buf_get (h ! a) i else NaN)"

definition store_at :: "addr \<Rightarrow> nat \<Rightarrow> num \<Rightarrow> store \<Rightarrow> store" where
  "store_at a i v h = (if a < length h then h[a := Float32_set (h ! a) i v] else h)"

definition attr_count :: "store \<Rightarrow> addr \<Rightarrow> nat" where
  "attr_count h a = (if a < length h then length (h ! a) div 3 else 0)"

definition scale_item :: "addr \<Rightarrow> addr \<Rightarrow> real \<Rightarrow> nat \<Rightarrow> store \<Rightarrow> store" where
  "scale_item pos arr scale i h =
     (let h = store_at arr (i * 3 + 0) (num_mul (load h pos (i * 3 + 0)) (Fin scale)) h;
          h = store_at arr (i * 3 + 1) (num_mul (load h pos (i * 3 + 1)) (Fin scale)) h;
          h = store_at arr (i * 3 + 2) (num_mul (load h pos (i * 3 + 2)) (Fin scale)) h
      in h)"

definition scalePositionsFromGeometry :: "store \<Rightarrow> BufferGeometry \<Rightarrow> real \<Rightarrow> addr \<times> store" where
  "scalePositionsFromGeometry h g scale =
     (let pos = position g;
          count = attr_count h pos
      in case new_Float32Array (count * 3) h of
           (arr, h) \<Rightarrow> (arr, fold (scale_item pos arr scale) [0..<count] h))"

section \<open>Notions used to state the properties\<close>

text \<open>A colour channel is a finite number in \<open>[0, 1]\<close>.\<close>

fun in_unit :: "num \<Rightarrow> bool" where
  "in_unit (Fin x) = (0 \<le> x \<and> x \<le> 1)"
| "in_unit x = False"

definition unit_channels :: "num \<times> num \<times> num \<Rightarrow> bool" where
  "unit_channels rgb = (case rgb of (r, g, b) \<Rightarrow> in_unit r \<and> in_unit g \<and> in_unit b)"

text \<open>
  A number that is not negative, and a finite number between two bounds.
\<close>

fun nonneg :: "num \<Rightarrow> bool" where
  "nonneg (Fin x) = (0 \<le> x)"
| "nonneg PInf = True"
| "nonneg v = False"

fun in_range :: "real \<Rightarrow> real \<Rightarrow> num \<Rightarrow> bool" where
  "in_range lo hi (Fin x) = (lo \<le> x \<and> x \<le> hi)"
| "in_range lo hi v = False"

text \<open>The stride before the multiplier is applied, \<open>Math.max(1, Math.ceil(n / maxDim))\<close>.\<close>

definition initial_step :: "int \<Rightarrow> real \<Rightarrow> int" where
  "initial_step n maxDim = max 1 \<lceil>of_int n / maxDim\<rceil>"

text \<open>
  A multiplier \<open>k\<close> fits when the strides scaled by \<open>k\<close> bring the doubled product of the
  down-sampled counts within the vertex cap.
\<close>

definition fits :: "int \<Rightarrow> int \<Rightarrow> real \<Rightarrow> int \<Rightarrow> bool" where
  "fits r c maxDim k =
     (decimated r (initial_step r maxDim * k) * decimated c (initial_step c maxDim * k) * 2
        \<le> MAX_VERTICES)"

text \<open>
  The sampled points of a well-formed grid in row-major order: the source index of the
  sampled point \<open>(i, j)\<close>, its elevation, and its exaggerated elevation as the builder
  computes it, \<open>Z[...] * exag\<close>.
\<close>

definition sampled_index :: "nat \<Rightarrow> nat \<Rightarrow> int \<Rightarrow> int \<Rightarrow> nat \<Rightarrow> nat \<Rightarrow> nat" where
  "sampled_index R C sy sx i j =
     nat (min (int i * sy) (int R - 1)) * C + nat (min (int j * sx) (int C - 1))"

definition sampled_points :: "nat \<Rightarrow> nat \<Rightarrow> int \<Rightarrow> int \<Rightarrow> nat list" where
  "sampled_points R C sy sx =
     map (\<lambda>(i, j). sampled_index R C sy sx i j)
       (List.product [0..<nat (decimated (int R) sy)] [0..<nat (decimated (int C) sx)])"

definition sampled_elevations :: "real list \<Rightarrow> nat \<Rightarrow> nat \<Rightarrow> int \<Rightarrow> int \<Rightarrow> real list" where
  "sampled_elevations Z R C sy sx = map (\<lambda>k. Z ! k) (sampled_points R C sy sx)"

definition sampled_zs :: "real list \<Rightarrow> nat \<Rightarrow> nat \<Rightarrow> int \<Rightarrow> int \<Rightarrow> real \<Rightarrow> num list" where
  "sampled_zs Z R C sy sx exag =
     map (\<lambda>z. num_mul (Fin z) (Fin exag)) (sampled_elevations Z R C sy sx)"

text \<open>
  The least element of a list of numbers, found as the builder's scan finds it; what it
  is to be a least element, an element that no element is below; and the unit in the
  last place of a binary64 value.
\<close>

definition num_least :: "num list \<Rightarrow> num" where
  "num_least zs = fold (\<lambda>z m. if num_lt z m then z else m) zs PInf"

definition is_least :: "num \<Rightarrow> num list \<Rightarrow> bool" where
  "is_least m zs = (m \<in> set zs \<and> (\<forall>z \<in> set zs. \<not> num_lt z m))"

definition ulp64 :: "real \<Rightarrow> real" where
  "ulp64 m = pow2 (binade (- 1022) m - 52)"

text \<open>Every entry of an index list is a vertex number of a mesh of \<open>2 * rows * cols\<close> vertices.\<close>

definition valid_index :: "int \<Rightarrow> int \<Rightarrow> int list \<Rightarrow> bool" where
  "valid_index rows cols fs = (\<forall>v \<in> set fs. 0 \<le> v \<and> v < 2 * (rows * cols))"

section \<open>Properties of rounding\<close>

text \<open>
  Rounding to a binary format is monotone and leaves the numbers of the format as they
  are; the number next below a number of the format is at most one unit in the last
  place away.
\<close>

lemma rne_of_int [simp]: "rne (of_int n) = n"
  by (simp add: rne_def)

lemma rne_cases: "rne s = \<lfloor>s\<rfloor> \<or> rne s = \<lfloor>s\<rfloor> + 1"
  by (simp add: rne_def Let_def)

lemma rne_mono: assumes "s \<le> t" shows "rne s \<le> rne t"
proof -
  have fg: "\<lfloor>s\<rfloor> \<le> \<lfloor>t\<rfloor>" using assms by (rule floor_mono)
  show ?thesis
  proof (cases "\<lfloor>s\<rfloor> = \<lfloor>t\<rfloor>")
    case True
    then show ?thesis using assms by (auto simp: rne_def Let_def)
  next
    case False
    then have "\<lfloor>s\<rfloor> + 1 \<le> \<lfloor>t\<rfloor>" using fg by simp
    moreover have "rne s \<le> \<lfloor>s\<rfloor> + 1" using rne_cases[of s] by auto
    moreover have "\<lfloor>t\<rfloor> \<le> rne t" using rne_cases[of t] by auto
    ultimately show ?thesis by linarith
  qed
qed

lemma rne_minus: "rne (- s) = - rne s"
proof (cases "s = of_int \<lfloor>s\<rfloor>")
  case True
  then obtain n where "s = of_int n" ..
  then show ?thesis by (simp flip: of_int_minus)
next
  case False
  then have lt: "of_int \<lfloor>s\<rfloor> < s" using of_int_floor_le[of s] by linarith
  have "\<lfloor>- s\<rfloor> = - \<lfloor>s\<rfloor> - 1"
    by (rule floor_unique) (use lt in \<open>simp_all\<close>, linarith)
  moreover have "s - of_int \<lfloor>s\<rfloor> < 1" by linarith
  ultimately show ?thesis using lt by (auto simp: rne_def Let_def)
qed

lemma rne_le: "s \<le> of_int n \<Longrightarrow> rne s \<le> n"
  using rne_mono[of s "of_int n"] by simp

lemma rne_ge: "of_int n \<le> s \<Longrightarrow> n \<le> rne s"
  using rne_mono[of "of_int n" s] by simp

lemma rne_abs_le: "\<bar>s\<bar> \<le> of_int n \<Longrightarrow> \<bar>rne s\<bar> \<le> n"
  using rne_le[of s n] rne_ge[of "- n" s] by (simp add: abs_le_iff)

lemma pow2_pos [simp]: "0 < pow2 k"
  by (simp add: pow2_def)

lemma pow2_abs [simp]: "\<bar>pow2 k\<bar> = pow2 k"
  by (simp add: pow2_def)

lemma pow2_add: "pow2 (a + b) = pow2 a * pow2 b"
  by (simp add: pow2_def powr_add)

lemma pow2_diff: "pow2 (a - b) = pow2 a / pow2 b"
  by (simp add: pow2_def powr_diff)

lemma pow2_le [simp]: "pow2 a \<le> pow2 b \<longleftrightarrow> a \<le> b"
  by (simp add: pow2_def)

lemma pow2_less [simp]: "pow2 a < pow2 b \<longleftrightarrow> a < b"
  by (simp add: pow2_def)

lemma pow2_nat: "0 \<le> k \<Longrightarrow> pow2 k = of_int (2 ^ nat k)"
  unfolding pow2_def using powr_realpow[of 2 "nat k"] by simp

lemma pow2_of_nat: "pow2 (int n) = 2 ^ n"
  using pow2_nat[of "int n"] by simp

lemma binade_ge: "emin \<le> binade emin x"
  by (simp add: binade_def)

lemma binade_minus [simp]: "binade emin (- x) = binade emin x"
  by (simp add: binade_def)

lemma floor_log2_bounds:
  assumes "x \<noteq> 0"
  shows "pow2 \<lfloor>log 2 \<bar>x\<bar>\<rfloor> \<le> \<bar>x\<bar>" "\<bar>x\<bar> < pow2 (\<lfloor>log 2 \<bar>x\<bar>\<rfloor> + 1)"
  using floor_log_eq_powr_iff[of "\<bar>x\<bar>" 2 "\<lfloor>log 2 \<bar>x\<bar>\<rfloor>"] assms
  by (simp_all add: pow2_def)

lemma floor_log2_eq:
  assumes "pow2 k \<le> \<bar>x\<bar>" "\<bar>x\<bar> < pow2 (k + 1)"
  shows "\<lfloor>log 2 \<bar>x\<bar>\<rfloor> = k"
proof -
  have "0 < \<bar>x\<bar>" using assms(1) pow2_pos[of k] by linarith
  then show ?thesis
    using floor_log_eq_powr_iff[of "\<bar>x\<bar>" 2 k] assms by (simp add: pow2_def)
qed

lemma binade_upper: "\<bar>x\<bar> < pow2 (binade emin x + 1)"
proof (cases "x = 0")
  case True
  then show ?thesis by simp
next
  case False
  have "\<bar>x\<bar> < pow2 (\<lfloor>log 2 \<bar>x\<bar>\<rfloor> + 1)" using floor_log2_bounds(2)[OF False] .
  also have "\<dots> \<le> pow2 (binade emin x + 1)" using False by (simp add: binade_def)
  finally show ?thesis .
qed

lemma binade_lower: "emin < binade emin x \<Longrightarrow> pow2 (binade emin x) \<le> \<bar>x\<bar>"
proof -
  assume a: "emin < binade emin x"
  then have x: "x \<noteq> 0" by (auto simp: binade_def)
  with a have e: "binade emin x = \<lfloor>log 2 \<bar>x\<bar>\<rfloor>" by (simp add: binade_def max_def split: if_splits)
  show ?thesis using floor_log2_bounds(1)[OF x] e by simp
qed

lemma binade_mono_abs:
  assumes "\<bar>x\<bar> \<le> \<bar>y\<bar>"
  shows "binade emin x \<le> binade emin y"
proof (cases "x = 0")
  case True
  then have "binade emin x = emin" by (simp add: binade_def)
  then show ?thesis using binade_ge[of emin y] by simp
next
  case False
  then have y: "y \<noteq> 0" using assms by auto
  have "log 2 \<bar>x\<bar> \<le> log 2 \<bar>y\<bar>" using False assms by simp
  then have "\<lfloor>log 2 \<bar>x\<bar>\<rfloor> \<le> \<lfloor>log 2 \<bar>y\<bar>\<rfloor>" by (rule floor_mono)
  then show ?thesis using False y by (simp add: binade_def)
qed

lemma scaled_bound: "\<bar>x / pow2 (binade emin x - int p + 1)\<bar> < 2 ^ p"
proof -
  have "\<bar>x\<bar> < pow2 (binade emin x + 1)" by (rule binade_upper)
  also have "\<dots> = pow2 (binade emin x - int p + 1) * pow2 (int p)"
    by (simp flip: pow2_add)
  finally have "\<bar>x\<bar> / pow2 (binade emin x - int p + 1) < pow2 (int p)"
    by (simp add: pos_divide_less_eq mult.commute)
  then show ?thesis by (simp add: pow2_of_nat)
qed

lemma round_val_minus: "round_val p emin (- x) = - round_val p emin x"
  by (simp add: round_val_def Let_def rne_minus)

lemma round_val_nonneg: "0 \<le> x \<Longrightarrow> 0 \<le> round_val p emin x"
  unfolding round_val_def Let_def
  by (intro mult_nonneg_nonneg) (simp_all add: rne_ge[of 0, simplified] less_imp_le)

lemma round_val_nonpos: "x \<le> 0 \<Longrightarrow> round_val p emin x \<le> 0"
  using round_val_nonneg[of "- x" p emin] by (simp add: round_val_minus)

lemma round_val_upper: "\<bar>round_val p emin x\<bar> \<le> pow2 (binade emin x + 1)"
proof -
  let ?q = "binade emin x - int p + 1"
  have "\<bar>x / pow2 ?q\<bar> \<le> of_int (2 ^ p)" using scaled_bound[of x emin p] by simp
  then have "\<bar>rne (x / pow2 ?q)\<bar> \<le> 2 ^ p" by (rule rne_abs_le)
  then have "\<bar>of_int (rne (x / pow2 ?q)) :: real\<bar> \<le> 2 ^ p"
    by (metis of_int_abs of_int_le_iff of_int_numeral of_int_power)
  then have "\<bar>round_val p emin x\<bar> \<le> 2 ^ p * pow2 ?q"
    by (simp add: round_val_def Let_def abs_mult mult_right_mono)
  also have "\<dots> = pow2 (binade emin x + 1)"
    by (simp flip: pow2_of_nat pow2_add)
  finally show ?thesis .
qed

lemma round_val_lower:
  assumes "1 \<le> p" "0 < x" "pow2 (binade emin x) \<le> x"
  shows "pow2 (binade emin x) \<le> round_val p emin x"
proof -
  let ?q = "binade emin x - int p + 1"
  have "pow2 (binade emin x) = pow2 ?q * pow2 (int (p - 1))"
    using assms(1) by (simp flip: pow2_add add: of_nat_diff)
  then have "pow2 (int (p - 1)) \<le> x / pow2 ?q"
    using assms(3) by (simp add: pos_le_divide_eq mult.commute)
  then have "of_int (2 ^ (p - 1)) \<le> x / pow2 ?q" by (simp add: pow2_of_nat)
  then have "2 ^ (p - 1) \<le> rne (x / pow2 ?q)" by (rule rne_ge)
  then have "(2 ^ (p - 1) :: real) \<le> of_int (rne (x / pow2 ?q))"
    by (metis of_int_le_iff of_int_numeral of_int_power)
  then have "2 ^ (p - 1) * pow2 ?q \<le> round_val p emin x"
    by (simp add: round_val_def Let_def)
  moreover have "2 ^ (p - 1) * pow2 ?q = pow2 (binade emin x)"
    using assms(1) by (simp flip: pow2_of_nat pow2_add add: of_nat_diff)
  ultimately show ?thesis by simp
qed

lemma round_val_exact:
  assumes x: "x = of_int m * pow2 q" and m: "\<bar>m\<bar> < 2 ^ p" and q: "emin - int p + 1 \<le> q"
  shows "round_val p emin x = x"
proof -
  let ?qx = "binade emin x - int p + 1"
  have le: "?qx \<le> q"
  proof (cases "x = 0")
    case True
    then show ?thesis using q by (simp add: binade_def)
  next
    case False
    have "\<bar>x\<bar> = of_int \<bar>m\<bar> * pow2 q" by (simp add: x abs_mult)
    also have "\<dots> < 2 ^ p * pow2 q"
    proof -
      have "(of_int \<bar>m\<bar> :: real) < of_int (2 ^ p)" using m by (simp only: of_int_less_iff)
      then show ?thesis by simp
    qed
    also have "\<dots> = pow2 (int p + q)" by (simp flip: pow2_of_nat pow2_add)
    finally have "\<bar>x\<bar> < pow2 (int p + q)" .
    with floor_log2_bounds(1)[OF False] have "pow2 \<lfloor>log 2 \<bar>x\<bar>\<rfloor> < pow2 (int p + q)" by linarith
    then have "\<lfloor>log 2 \<bar>x\<bar>\<rfloor> < int p + q" by simp
    then show ?thesis using q False by (simp add: binade_def)
  qed
  define qx where "qx = binade emin x - int p + 1"
  have le': "qx \<le> q" using le by (simp add: qx_def)
  have "pow2 q = pow2 qx * pow2 (q - qx)" by (simp flip: pow2_add)
  also have "pow2 (q - qx) = of_int (2 ^ nat (q - qx))" using le' by (intro pow2_nat) simp
  finally have "of_int m * pow2 q = of_int (m * 2 ^ nat (q - qx)) * pow2 qx" by simp
  then have xq: "x = of_int (m * 2 ^ nat (q - qx)) * pow2 qx" by (simp only: x)
  have nz: "pow2 qx \<noteq> 0" using pow2_pos[of qx] by linarith
  from xq nz have "x / pow2 qx = of_int (m * 2 ^ nat (q - qx))" by simp
  then have "rne (x / pow2 qx) = m * 2 ^ nat (q - qx)" by (simp only: rne_of_int)
  then have "round_val p emin x = of_int (m * 2 ^ nat (q - qx)) * pow2 qx"
    by (simp only: round_val_def Let_def qx_def)
  then show ?thesis using xq by simp
qed

lemma round_val_mono_pos:
  assumes p: "1 \<le> p" and x: "0 < x" and xy: "x \<le> y"
  shows "round_val p emin x \<le> round_val p emin y"
proof -
  have e: "binade emin x \<le> binade emin y" using x xy by (intro binade_mono_abs) simp
  show ?thesis
  proof (cases "binade emin x = binade emin y")
    case True
    let ?q = "binade emin y - int p + 1"
    have "x / pow2 ?q \<le> y / pow2 ?q" using xy by (intro divide_right_mono) (simp_all add: less_imp_le)
    then have "rne (x / pow2 ?q) \<le> rne (y / pow2 ?q)" by (rule rne_mono)
    then have "(of_int (rne (x / pow2 ?q)) :: real) \<le> of_int (rne (y / pow2 ?q))" by simp
    then show ?thesis by (simp add: round_val_def Let_def True)
  next
    case False
    then have lt: "binade emin x + 1 \<le> binade emin y" using e by simp
    have "round_val p emin x \<le> \<bar>round_val p emin x\<bar>" by simp
    also have "\<dots> \<le> pow2 (binade emin x + 1)" by (rule round_val_upper)
    also have "\<dots> \<le> pow2 (binade emin y)" using lt by simp
    also have "\<dots> \<le> round_val p emin y"
    proof (rule round_val_lower[OF p])
      show "0 < y" using x xy by simp
      have "emin < binade emin y" using lt binade_ge[of emin x] by linarith
      then show "pow2 (binade emin y) \<le> y" using binade_lower[of emin y] \<open>0 < y\<close> by simp
    qed
    finally show ?thesis .
  qed
qed

lemma round_val_mono:
  assumes p: "1 \<le> p" and xy: "x \<le> y"
  shows "round_val p emin x \<le> round_val p emin y"
proof -
  consider "0 < x" | "x \<le> 0" "0 \<le> y" | "y < 0" by linarith
  then show ?thesis
  proof cases
    case 1
    then show ?thesis using p xy by (intro round_val_mono_pos)
  next
    case 2
    then show ?thesis using round_val_nonpos[of x p emin] round_val_nonneg[of y p emin] by linarith
  next
    case 3
    then have "round_val p emin (- y) \<le> round_val p emin (- x)"
      using xy by (intro round_val_mono_pos[OF p]) simp_all
    then show ?thesis by (simp add: round_val_minus)
  qed
qed

lemma round_val_idem:
  assumes p: "1 \<le> p"
  shows "round_val p emin (round_val p emin x) = round_val p emin x"
proof -
  let ?q = "binade emin x - int p + 1"
  let ?n = "rne (x / pow2 ?q)"
  have y: "round_val p emin x = of_int ?n * pow2 ?q" by (simp add: round_val_def Let_def)
  have "\<bar>x / pow2 ?q\<bar> \<le> of_int (2 ^ p)" using scaled_bound[of x emin p] by simp
  then have n: "\<bar>?n\<bar> \<le> 2 ^ p" by (rule rne_abs_le)
  show ?thesis
  proof (cases "\<bar>?n\<bar> < 2 ^ p")
    case True
    show ?thesis by (rule round_val_exact[OF y True]) (simp add: binade_ge)
  next
    case False
    with n have eq: "\<bar>?n\<bar> = 2 ^ p" by simp
    obtain k where k: "p = Suc k" using p by (cases p) simp_all
    obtain c where c: "?n = 2 * c" "\<bar>c\<bar> = 2 ^ k"
    proof (cases "0 \<le> ?n")
      case True
      then have "?n = 2 * 2 ^ k" using eq by (simp add: k)
      then show ?thesis using that[of "2 ^ k"] by simp
    next
      case False
      then have "?n = 2 * (- (2 ^ k))" using eq by (simp add: k)
      then show ?thesis using that[of "- (2 ^ k)"] by simp
    qed
    have d: "?n div 2 = c" by (simp only: c(1) nonzero_mult_div_cancel_left)
    have h2: "\<bar>?n div 2\<bar> < 2 ^ p" unfolding d using c(2) by (simp add: k)
    have h1: "?n = (?n div 2) * 2" unfolding d using c(1) by simp
    note h = h1 h2
    have "round_val p emin x = of_int (?n div 2) * pow2 (?q + 1)"
    proof -
      have "of_int ?n * pow2 ?q = of_int ((?n div 2) * 2) * pow2 ?q" using h(1) by simp
      also have "\<dots> = of_int (?n div 2) * (2 * pow2 ?q)" by simp
      also have "2 * pow2 ?q = pow2 (?q + 1)" using pow2_add[of ?q 1] pow2_of_nat[of 1] by simp
      finally show ?thesis by (simp only: y)
    qed
    then show ?thesis by (rule round_val_exact[OF _ h(2)]) (use binade_ge[of emin x] in simp)
  qed
qed

lemma overflow_mono: "v \<le> w \<Longrightarrow> \<not> num_lt (overflow emax w) (overflow emax v)"
  using pow2_pos[of "emax + 1"] by (auto simp: overflow_def)

lemma overflow_not_NaN [simp]: "overflow emax v \<noteq> NaN"
  by (simp add: overflow_def)

lemma round_to_not_NaN [simp]: "round_to p emin emax x \<noteq> NaN"
  by (simp add: round_to_def)

lemma round_to_mono:
  "1 \<le> p \<Longrightarrow> x \<le> y \<Longrightarrow> \<not> num_lt (round_to p emin emax y) (round_to p emin emax x)"
  unfolding round_to_def by (intro overflow_mono round_val_mono)

lemma round_to_exact:
  assumes "x = of_int m * pow2 q" "\<bar>m\<bar> < 2 ^ p" "emin - int p + 1 \<le> q"
    and "\<bar>x\<bar> < pow2 (emax + 1)"
  shows "round_to p emin emax x = Fin x"
  using assms(4) by (simp add: round_to_def round_val_exact[OF assms(1-3)] overflow_def)

lemma round_to_Fin:
  assumes "round_to p emin emax x = Fin y"
  shows "y = round_val p emin x" "\<bar>y\<bar> < pow2 (emax + 1)"
  using assms by (auto simp: round_to_def overflow_def split: if_splits)

lemma round_to_idem:
  assumes "1 \<le> p" "round_to p emin emax x = Fin y"
  shows "round_to p emin emax y = Fin y"
  using round_to_Fin[OF assms(2)] round_val_idem[OF assms(1), of emin x]
  by (simp add: round_to_def overflow_def)

lemma round_to_cases:
  obtains "round_to p emin emax x = PInf" "0 < x"
  | "round_to p emin emax x = NInf" "x < 0"
  | y where "round_to p emin emax x = Fin y" "y = round_val p emin x"
proof (cases "pow2 (emax + 1) \<le> \<bar>round_val p emin x\<bar>")
  case False
  then have "round_to p emin emax x = Fin (round_val p emin x)"
    by (simp add: round_to_def overflow_def)
  then show ?thesis using that(3) by simp
next
  case big: True
  show ?thesis
  proof (cases "0 < round_val p emin x")
    case True
    then have "0 < x" using round_val_nonpos[of x p emin] by linarith
    moreover have "round_to p emin emax x = PInf"
      using big True by (simp add: round_to_def overflow_def)
    ultimately show ?thesis using that(1) by simp
  next
    case False
    then have "round_val p emin x < 0" using big pow2_pos[of "emax + 1"] by linarith
    then have "x < 0" using round_val_nonneg[of x p emin] by linarith
    moreover have "round_to p emin emax x = NInf"
      using big False by (simp add: round_to_def overflow_def)
    ultimately show ?thesis using that(2) by simp
  qed
qed

lemma fround_idem [simp]: "fround (fround v) = fround v"
proof (cases v)
  case (Fin x)
  show ?thesis
  proof (cases "fround v")
    case (Fin y)
    then have "round_to 24 (- 126) 127 x = Fin y" using \<open>v = Fin x\<close> by simp
    then have "round_to 24 (- 126) 127 y = Fin y" by (intro round_to_idem) simp_all
    then show ?thesis using Fin by simp
  qed simp_all
qed simp_all

lemma round64_idem: "round64 x = Fin y \<Longrightarrow> round64 y = Fin y"
  unfolding round64_def by (intro round_to_idem) simp_all

lemma round64_mono: "x \<le> y \<Longrightarrow> \<not> num_lt (round64 y) (round64 x)"
  unfolding round64_def by (intro round_to_mono) simp_all

lemma round64_not_NaN [simp]: "round64 x \<noteq> NaN"
  by (simp add: round64_def)

lemma round64_exact:
  assumes "x = of_int m * pow2 q" "\<bar>m\<bar> < 2 ^ 53" "- 1074 \<le> q" "\<bar>x\<bar> < pow2 1024"
  shows "round64 x = Fin x"
  unfolding round64_def by (rule round_to_exact[OF assms(1,2)]) (use assms(3,4) in simp_all)

lemma round64_int: "\<bar>m\<bar> < 2 ^ 53 \<Longrightarrow> round64 (of_int m) = Fin (of_int m)"
proof (rule round64_exact[of _ m 0])
  assume m: "\<bar>m\<bar> < 2 ^ 53"
  show "of_int m = of_int m * pow2 0" by (simp add: pow2_def)
  show "\<bar>m\<bar> < 2 ^ 53" by (rule m)
  have "\<bar>of_int m :: real\<bar> < of_int (2 ^ 53)" using m by (simp only: of_int_abs[symmetric] of_int_less_iff)
  also have "\<dots> = pow2 53" using pow2_of_nat[of 53] by simp
  also have "\<dots> < pow2 1024" by simp
  finally show "\<bar>of_int m :: real\<bar> < pow2 1024" .
qed simp

lemma round64_nonneg:
  assumes "0 \<le> x"
  obtains "round64 x = PInf" | y where "round64 x = Fin y" "0 \<le> y"
proof (cases rule: round_to_cases[of 53 "- 1022" 1023 x])
  case 1
  then show ?thesis using that by (simp add: round64_def)
next
  case 2
  then show ?thesis using assms by simp
next
  case (3 y)
  then show ?thesis using that(2)[of y] round_val_nonneg[OF assms] by (simp add: round64_def)
qed

lemma pow2_numeral [simp]:
  "pow2 (numeral n) = 2 ^ numeral n" "pow2 (- numeral n) = 1 / 2 ^ numeral n"
  "pow2 0 = 1" "pow2 1 = 2"
  by (simp_all add: pow2_def powr_neg_numeral)

lemma binade_eq:
  assumes "pow2 e \<le> \<bar>x\<bar>" "\<bar>x\<bar> < pow2 (e + 1)" "emin \<le> e"
  shows "binade emin x = e"
proof -
  have "0 < \<bar>x\<bar>" using assms(1) pow2_pos[of e] by linarith
  then have "x \<noteq> 0" by simp
  then show ?thesis using floor_log2_eq[OF assms(1,2)] assms(3) by (simp add: binade_def)
qed

lemma round_to_eval:
  assumes "pow2 e \<le> \<bar>x\<bar>" "\<bar>x\<bar> < pow2 (e + 1)" "emin \<le> e"
  shows "round_to p emin emax x
         = overflow emax (of_int (rne (x / pow2 (e - int p + 1))) * pow2 (e - int p + 1))"
  by (simp add: round_to_def round_val_def Let_def binade_eq[OF assms])

lemma round_val_pred:
  assumes p: "1 \<le> p" and fixp: "round_val p emin m = m"
    and b: "pow2 (binade emin m - int p + 1) \<le> b"
  shows "round_val p emin (m - b) < m"
proof -
  define q where "q = binade emin m - int p + 1"
  define n where "n = rne (m / pow2 q)"
  have m: "m = of_int n * pow2 q" using fixp by (simp add: round_val_def Let_def q_def n_def)
  have nz: "pow2 q \<noteq> 0" using pow2_pos[of q] by linarith
  have "m / pow2 q = of_int n" using m nz by simp
  then have "\<bar>of_int n :: real\<bar> < 2 ^ p" using scaled_bound[of m emin p] by (simp add: q_def)
  then have "(of_int \<bar>n\<bar> :: real) < of_int (2 ^ p)" by simp
  then have n: "\<bar>n\<bar> < 2 ^ p" by (simp only: of_int_less_iff)
  have qmin: "emin - int p + 1 \<le> q" using binade_ge[of emin m] by (simp add: q_def)
  define r where "r = m - pow2 q"
  have r: "r = of_int (n - 1) * pow2 q" by (simp add: r_def m algebra_simps)
  have rfix: "round_val p emin r = r"
  proof (cases "\<bar>n - 1\<bar> < 2 ^ p")
    case True
    show ?thesis by (rule round_val_exact[OF r True qmin])
  next
    case False
    then have eq: "n - 1 = - (2 ^ p)" using n by linarith
    obtain k where k: "p = Suc k" using p by (cases p) simp_all
    have "r = of_int (- (2 ^ k)) * (2 * pow2 q)" by (simp add: r eq k)
    also have "2 * pow2 q = pow2 (q + 1)" using pow2_add[of q 1] by (simp add: pow2_def)
    finally have r': "r = of_int (- (2 ^ k)) * pow2 (q + 1)" .
    show ?thesis by (rule round_val_exact[OF r']) (use qmin in \<open>simp_all add: k\<close>)
  qed
  have "m - b \<le> r" using b by (simp add: r_def q_def)
  then have "round_val p emin (m - b) \<le> round_val p emin r" by (rule round_val_mono[OF p])
  also have "\<dots> = r" by (rule rfix)
  also have "r < m" using pow2_pos[of q] by (simp add: r_def)
  finally show ?thesis .
qed

lemma round_to_pred:
  assumes p: "1 \<le> p" and m: "round_to p emin emax x = Fin m"
    and b: "pow2 (binade emin m - int p + 1) \<le> b"
  shows "num_lt (round_to p emin emax (m - b)) (Fin m)"
proof -
  have fixp: "round_val p emin m = m"
    using round_to_Fin(1)[OF m] round_val_idem[OF p, of emin x] by simp
  have bound: "\<bar>m\<bar> < pow2 (emax + 1)" using round_to_Fin(2)[OF m] .
  have lt: "round_val p emin (m - b) < m" using p fixp b by (rule round_val_pred)
  show ?thesis
  proof (cases "pow2 (emax + 1) \<le> \<bar>round_val p emin (m - b)\<bar>")
    case True
    then have "\<not> 0 < round_val p emin (m - b)" using lt bound by linarith
    then show ?thesis using True by (simp add: round_to_def overflow_def)
  next
    case False
    then show ?thesis using lt by (simp add: round_to_def overflow_def)
  qed
qed

lemma round64_pred:
  assumes "round64 x = Fin m" "ulp64 m \<le> b"
  shows "num_lt (round64 (m - b)) (Fin m)"
  using assms unfolding round64_def ulp64_def
  by (intro round_to_pred[where x = x]) simp_all

lemma ulp64_le:
  "ulp64 m \<le> max (\<bar>m\<bar> / 2 ^ 52) (1 / 2 ^ 1074)"
proof (cases "- 1022 < binade (- 1022) m")
  case True
  have "ulp64 m = pow2 (binade (- 1022) m) / 2 ^ 52"
    using pow2_diff[of "binade (- 1022) m" 52] by (simp add: ulp64_def)
  also have "\<dots> \<le> \<bar>m\<bar> / 2 ^ 52" using binade_lower[OF True] by (simp add: divide_right_mono)
  finally show ?thesis by simp
next
  case False
  then have "binade (- 1022) m = - 1022" using binade_ge[of "- 1022" m] by linarith
  then have "ulp64 m = 1 / 2 ^ 1074" by (simp add: ulp64_def)
  then show ?thesis by simp
qed

lemma round64_is_nonneg: "0 \<le> x \<Longrightarrow> nonneg (round64 x)"
  by (erule round64_nonneg) simp_all

lemma round64_frac:
  assumes "\<bar>m\<bar> < 2 ^ 53" "k \<le> 1074"
  shows "round64 (of_int m / 2 ^ k) = Fin (of_int m / 2 ^ k)"
proof (rule round64_exact[of _ m "- int k"])
  have inv: "pow2 (- int k) = 1 / 2 ^ k"
    using pow2_diff[of 0 "int k"] by (simp add: pow2_of_nat)
  show "of_int m / 2 ^ k = of_int m * pow2 (- int k)" by (simp add: inv)
  show "\<bar>m\<bar> < 2 ^ 53" by (rule assms(1))
  show "- 1074 \<le> - int k" using assms(2) by simp
  have "\<bar>of_int m / 2 ^ k :: real\<bar> \<le> \<bar>of_int m\<bar>"
    by (simp add: divide_le_eq_1 abs_divide field_simps) (simp add: mult_le_cancel_left1 flip: abs_mult)
  also have "\<dots> < of_int (2 ^ 53)" using assms(1) by (simp only: of_int_abs[symmetric] of_int_less_iff)
  also have "\<dots> = pow2 53" using pow2_of_nat[of 53] by simp
  also have "\<dots> < pow2 1024" by simp
  finally show "\<bar>of_int m / 2 ^ k :: real\<bar> < pow2 1024" .
qed

lemma round64_range:
  assumes lo: "round64 lo = Fin lo" and hi: "round64 hi = Fin hi" and x: "lo \<le> x" "x \<le> hi"
  shows "in_range lo hi (round64 x)"
proof -
  have a: "\<not> num_lt (round64 x) (Fin lo)" using round64_mono[OF x(1)] by (simp add: lo)
  have b: "\<not> num_lt (Fin hi) (round64 x)" using round64_mono[OF x(2)] by (simp add: hi)
  show ?thesis using a b by (cases "round64 x") simp_all
qed

section \<open>Properties of the decimation planner\<close>

text \<open>
  The loop of \<open>calcSteps\<close> never changes what its condition reads, so it either does not
  run or runs until the \<open>break\<close>, which leaves \<open>factor = 21\<close>.
\<close>

lemma factor_loop_from:
  "1 \<le> f \<Longrightarrow> f \<le> 20 \<Longrightarrow>
   factor_loop er ec f = (if er * ec * 2 > MAX_VERTICES then 21 else f)"
proof (induction er ec f rule: factor_loop.induct)
  case (1 estRows estCols factor)
  show ?case
  proof (cases "estRows * estCols * 2 > MAX_VERTICES")
    case over: True
    show ?thesis
    proof (cases "factor + 1 > 20")
      case True
      with 1(2,3) over show ?thesis
        by (subst factor_loop.simps) (simp add: Let_def)
    next
      case False
      with 1 over show ?thesis
        by (subst factor_loop.simps) (simp add: Let_def)
    qed
  next
    case False
    then show ?thesis by (subst factor_loop.simps) simp
  qed
qed

lemma calcSteps_eq:
  "calcSteps r c m =
     (let sy = initial_step r m; sx = initial_step c m;
          k = (if decimated r sy * decimated c sx * 2 > MAX_VERTICES then 21 else 1)
      in \<lparr>stepY = sy * k, stepX = sx * k\<rparr>)"
  by (simp add: calcSteps_def initial_step_def decimated_def factor_loop_from Let_def)

lemma initial_step_pos: "1 \<le> initial_step r m"
  by (simp add: initial_step_def)

lemma initial_step_ge: "of_int r / m \<le> of_int (initial_step r m)"
  unfolding initial_step_def by (simp add: max_def)

lemma calcSteps_pos: "1 \<le> stepY (calcSteps r c m) \<and> 1 \<le> stepX (calcSteps r c m)"
  using initial_step_pos[of r m] initial_step_pos[of c m]
  by (simp add: calcSteps_eq Let_def)

lemma decimated_pos:
  assumes "1 \<le> r" "1 \<le> s"
  shows "1 \<le> decimated r s"
proof -
  from assms have "0 < of_int r / (of_int s :: real)" by simp
  then have "0 < decimated r s"
    unfolding decimated_def by (simp only: less_ceiling_iff)
  then show ?thesis by simp
qed

lemma decimated_scaled_le:
  assumes "0 < m" "m \<le> 1200" "1 \<le> r"
  shows "decimated r (initial_step r m * 21) \<le> 58"
proof -
  let ?s = "initial_step r m"
  have s: "0 < (of_int ?s :: real)" using initial_step_pos[of r m] by simp
  have "of_int r \<le> of_int ?s * m"
    using initial_step_ge[of r m] assms(1) by (simp add: pos_divide_le_eq)
  also have "\<dots> \<le> of_int ?s * 1200" using s assms(2) by simp
  finally have "of_int r \<le> 58 * (of_int ?s * 21 :: real)" using s by simp
  then have "of_int r / (of_int (?s * 21) :: real) \<le> of_int 58"
    using s by (simp add: pos_divide_le_eq)
  then show ?thesis unfolding decimated_def by (simp only: ceiling_le_iff)
qed

lemma clamp_Fin: "clamp (Fin n) (Fin a) (Fin b) = Fin (max a (min b n))"
  by (simp add: clamp_def Math_max_def Math_min_def max_def min_def)

lemma calcSteps_cap:
  assumes r: "1 \<le> r" and c: "1 \<le> c" and m: "0 < m" "m \<le> 1200"
  shows "decimated r (stepY (calcSteps r c m)) * decimated c (stepX (calcSteps r c m)) * 2
           \<le> MAX_VERTICES"
proof (cases "decimated r (initial_step r m) * decimated c (initial_step c m) * 2 > MAX_VERTICES")
  case False
  then show ?thesis by (simp add: calcSteps_eq Let_def)
next
  case True
  have a: "decimated r (initial_step r m * 21) \<le> 58"
    using decimated_scaled_le[OF m r] .
  have b: "decimated c (initial_step c m * 21) \<le> 58"
    using decimated_scaled_le[OF m c] .
  have a0: "0 \<le> decimated r (initial_step r m * 21)"
    using decimated_pos[OF r, of "initial_step r m * 21"] initial_step_pos[of r m] by simp
  have b0: "0 \<le> decimated c (initial_step c m * 21)"
    using decimated_pos[OF c, of "initial_step c m * 21"] initial_step_pos[of c m] by simp
  have "decimated r (initial_step r m * 21) * decimated c (initial_step c m * 21) \<le> 58 * 58"
    using a b a0 b0 by (intro mult_mono) simp_all
  then have "decimated r (initial_step r m * 21) * decimated c (initial_step c m * 21) * 2
               \<le> MAX_VERTICES"
    unfolding MAX_VERTICES_def by linarith
  then show ?thesis using True by (simp add: calcSteps_eq Let_def)
qed

text \<open>
  C1. The claim is that the multiplier chosen by \<open>calcSteps\<close> is the smallest one, within
  the bound of 20, whose scaled strides fit the vertex cap. For a 1200 by 1200 grid and
  \<open>maxDim = 1200\<close> the initial strides are 1 and the multiplier 2 already fits, yet the
  strides returned are 21 and 21: the multiplier is 21, neither the smallest one that
  fits nor within the bound.
\<close>

theorem calcSteps_multiplier_not_least:
  "calcSteps 1200 1200 1200 = \<lparr>stepY = 21, stepX = 21\<rparr>
   \<and> initial_step 1200 1200 = 1
   \<and> \<not> fits 1200 1200 1200 1
   \<and> fits 1200 1200 1200 2"
  by (simp add: calcSteps_eq fits_def initial_step_def decimated_def MAX_VERTICES_def Let_def)

text \<open>
  C3. For a grid with at least one row and one column and every \<open>maxDim\<close>, clamped into
  \<open>[100, 1200]\<close> as the builder does, the strides returned by \<open>calcSteps\<close> give
  down-sampled counts whose doubled product is at most 1,500,000.
\<close>

theorem calcSteps_vertex_cap:
  assumes "1 \<le> r" and "1 \<le> c"
    and "clamp (Fin maxDim) (Fin 100) (Fin MAX_DIM) = Fin m"
  shows "decimated r (stepY (calcSteps r c m)) * decimated c (stepX (calcSteps r c m)) * 2
           \<le> MAX_VERTICES"
proof -
  from assms(3) have "m = max 100 (min 1200 maxDim)"
    by (simp add: clamp_Fin MAX_DIM_def)
  then have "0 < m" "m \<le> 1200" by auto
  with assms(1,2) show ?thesis by (rule calcSteps_cap)
qed

theorem calcSteps_vertex_cap_witness:
  "(1::int) \<le> 5000 \<and> clamp (Fin 5000) (Fin 100) (Fin MAX_DIM) = Fin 1200
   \<and> calcSteps 5000 5000 1200 = \<lparr>stepY = 105, stepX = 105\<rparr>
   \<and> decimated 5000 (stepY (calcSteps 5000 5000 1200))
       * decimated 5000 (stepX (calcSteps 5000 5000 1200)) * 2 \<le> MAX_VERTICES"
proof -
  have h: "(1::int) \<le> 5000" by simp
  have k: "clamp (Fin 5000) (Fin 100) (Fin MAX_DIM) = Fin 1200"
    by (simp add: clamp_Fin MAX_DIM_def)
  have e: "calcSteps 5000 5000 1200 = \<lparr>stepY = 105, stepX = 105\<rparr>"
    by (simp add: calcSteps_eq initial_step_def decimated_def MAX_VERTICES_def Let_def)
  show ?thesis using h k e calcSteps_vertex_cap [OF h h k] by simp
qed

section \<open>Properties of the colour map\<close>

lemma in_range_nonneg: "in_range lo hi v \<Longrightarrow> 0 \<le> lo \<Longrightarrow> nonneg v"
  by (cases v) simp_all

lemma num_add_range:
  assumes "in_range a1 a2 u" "in_range b1 b2 v"
    and "round64 (a1 + b1) = Fin (a1 + b1)" "round64 (a2 + b2) = Fin (a2 + b2)"
  shows "in_range (a1 + b1) (a2 + b2) (num_add u v)"
proof -
  obtain x y where u: "u = Fin x" "a1 \<le> x" "x \<le> a2" and v: "v = Fin y" "b1 \<le> y" "y \<le> b2"
    using assms(1,2) by (cases u; cases v) simp_all
  show ?thesis unfolding u(1) v(1) num_add.simps
    by (rule round64_range[OF assms(3,4)]) (use u v in simp_all)
qed

lemma num_mul_range:
  assumes "in_range a1 a2 u" "in_range b1 b2 v" "0 \<le> a1" "0 \<le> b1"
    and "round64 (a1 * b1) = Fin (a1 * b1)" "round64 (a2 * b2) = Fin (a2 * b2)"
  shows "in_range (a1 * b1) (a2 * b2) (num_mul u v)"
proof -
  obtain x y where u: "u = Fin x" "a1 \<le> x" "x \<le> a2" and v: "v = Fin y" "b1 \<le> y" "y \<le> b2"
    using assms(1,2) by (cases u; cases v) simp_all
  have "a1 * b1 \<le> x * y" using u v assms(3,4) by (intro mult_mono) simp_all
  moreover have "x * y \<le> a2 * b2" using u v assms(3,4) by (intro mult_mono) simp_all
  ultimately show ?thesis unfolding u(1) v(1) num_mul.simps
    by (intro round64_range[OF assms(5,6)])
qed

lemma num_add_nonneg: "nonneg a \<Longrightarrow> nonneg b \<Longrightarrow> nonneg (num_add a b)"
  by (cases a; cases b) (simp_all add: round64_is_nonneg)

lemma num_mul_pos_nonneg:
  assumes "in_range lo hi a" "0 < lo" "nonneg b"
  shows "nonneg (num_mul a b)"
proof -
  obtain x where a: "a = Fin x" "0 < x" using assms(1,2) by (cases a) simp_all
  show ?thesis using assms(3) a(2) by (cases b) (simp_all add: a(1) round64_is_nonneg inf_of_sign_def)
qed

lemma Math_pow_nonneg: "0 \<le> t \<Longrightarrow> 0 \<le> e \<Longrightarrow> nonneg (Math_pow (Fin t) e)"
  by (simp add: round64_is_nonneg)

lemmas dyadic64 =
  round64_frac[of 1 5, simplified] round64_frac[of 1 0, simplified]
  round64_frac[of 0 0, simplified]

lemma lit_range: "1 / 32 \<le> c \<Longrightarrow> c \<le> 1 \<Longrightarrow> in_range (1 / 32) 1 (lit c)"
  unfolding lit_def by (rule round64_range) (simp_all add: dyadic64)

lemma channel_nonneg:
  assumes "0 \<le> t" "0 \<le> a" "1 / 32 \<le> b" "b \<le> 1" "1 / 32 \<le> c" "c \<le> 1" "0 \<le> d" "0 \<le> e"
  shows "nonneg (channel a b c d e (Fin t))"
  unfolding channel_def
  by (intro num_add_nonneg num_mul_pos_nonneg[OF lit_range] Math_pow_nonneg
      round64_is_nonneg[of a, folded lit_def] assms) simp_all

lemma output_clamp_unit: "nonneg v \<Longrightarrow> in_unit (Math_min (Fin 1) (Math_max (Fin 0) v))"
  by (cases v) (simp_all add: Math_min_def Math_max_def)

lemma viridis_nonneg_unit: "0 \<le> t \<Longrightarrow> unit_channels (viridis (Fin t))"
  unfolding viridis_def unit_channels_def Let_def prod.case
  by (intro conjI output_clamp_unit channel_nonneg) simp_all

lemma num_add_NaN [simp]: "num_add x NaN = NaN" "num_add NaN x = NaN"
  by (cases x; simp)+

lemma num_mul_NaN [simp]: "num_mul x NaN = NaN" "num_mul NaN x = NaN"
  by (cases x; simp add: inf_of_sign_def)+

text \<open>
  Below zero the green channel has no value: \<open>Math.pow\<close> of a negative base with the
  exponents 1.5 and 0.5 is \<open>NaN\<close>, and \<open>Math.max\<close> and \<open>Math.min\<close> pass it on.
\<close>

lemma viridis_negative_green: "t < 0 \<Longrightarrow> fst (snd (viridis (Fin t))) = NaN"
  by (simp add: viridis_def channel_def Let_def is_int_def Math_max_def Math_min_def
      inf_of_sign_def)

lemmas dyadic_red =
  round64_frac[of 7 5, simplified] round64_frac[of 1 2, simplified]
  round64_frac[of 4 0, simplified] round64_frac[of 7 3, simplified]
  round64_frac[of 5 4, simplified] round64_frac[of 9 3, simplified]
  round64_frac[of 21 4, simplified] round64_frac[of 1 4, simplified]
  round64_frac[of 37 5, simplified] round64_frac[of 11 3, simplified]
  round64_frac[of 15 5, simplified] round64_frac[of 9 4, simplified]
  round64_frac[of 1 1, simplified] round64_frac[of 5 3, simplified]

lemma red_coefficients:
  "in_range (1 / 4) (5 / 16) (lit 0.280268)"
  "in_range (7 / 32) (1 / 4) (lit 0.23393)"
  "in_range (1 / 32) (1 / 16) (lit 0.043831)"
  unfolding lit_def by (rule round64_range; simp add: dyadic_red dyadic64)+

lemma red_at_2: "in_range (37 / 32) (11 / 8) (channel 0.280268 0.23393 0.043831 2 0 (Fin 2))"
proof -
  have p: "Math_pow (Fin 2) 2 = Fin 4" by (simp add: dyadic_red)
  have "in_range (7 / 32 * 4) (1 / 4 * 4) (num_mul (lit 0.23393) (Fin 4))"
    by (rule num_mul_range[OF red_coefficients(2)]) (simp_all add: dyadic_red dyadic64)
  then have "in_range (1 / 4 + 7 / 32 * 4) (5 / 16 + 1 / 4 * 4)
               (num_add (lit 0.280268) (num_mul (lit 0.23393) (Fin 4)))"
    by (rule num_add_range[OF red_coefficients(1)]) (simp_all add: dyadic_red)
  moreover have "in_range (1 / 32 * 1) (1 / 16 * 1) (num_mul (lit 0.043831) (Fin 1))"
    by (rule num_mul_range[OF red_coefficients(3)]) (simp_all add: dyadic_red dyadic64)
  ultimately have "in_range (1 / 4 + 7 / 32 * 4 + 1 / 32 * 1) (5 / 16 + 1 / 4 * 4 + 1 / 16 * 1)
      (num_add (num_add (lit 0.280268) (num_mul (lit 0.23393) (Fin 4)))
         (num_mul (lit 0.043831) (Fin 1)))"
    by (rule num_add_range) (simp_all add: dyadic_red)
  then show ?thesis by (simp add: channel_def dyadic_red dyadic64)
qed

lemma red_at_1: "in_range (1 / 2) (5 / 8) (channel 0.280268 0.23393 0.043831 2 0 (Fin 1))"
proof -
  have p: "Math_pow (Fin 1) 2 = Fin 1" by (simp add: dyadic64)
  have "in_range (7 / 32 * 1) (1 / 4 * 1) (num_mul (lit 0.23393) (Fin 1))"
    by (rule num_mul_range[OF red_coefficients(2)]) (simp_all add: dyadic_red dyadic64)
  then have "in_range (1 / 4 + 7 / 32 * 1) (5 / 16 + 1 / 4 * 1)
               (num_add (lit 0.280268) (num_mul (lit 0.23393) (Fin 1)))"
    by (rule num_add_range[OF red_coefficients(1)]) (simp_all add: dyadic_red)
  moreover have "in_range (1 / 32 * 1) (1 / 16 * 1) (num_mul (lit 0.043831) (Fin 1))"
    by (rule num_mul_range[OF red_coefficients(3)]) (simp_all add: dyadic_red dyadic64)
  ultimately have "in_range (1 / 4 + 7 / 32 * 1 + 1 / 32 * 1) (5 / 16 + 1 / 4 * 1 + 1 / 16 * 1)
      (num_add (num_add (lit 0.280268) (num_mul (lit 0.23393) (Fin 1)))
         (num_mul (lit 0.043831) (Fin 1)))"
    by (rule num_add_range) (simp_all add: dyadic_red)
  then show ?thesis by (simp add: channel_def dyadic_red dyadic64)
qed

lemma clamp_above: "in_range lo hi v \<Longrightarrow> 1 \<le> lo \<Longrightarrow> Math_min (Fin 1) (Math_max (Fin 0) v) = Fin 1"
  by (cases v) (simp_all add: Math_min_def Math_max_def)

lemma clamp_inside:
  "in_range lo hi v \<Longrightarrow> 0 \<le> lo \<Longrightarrow> hi \<le> 1 \<Longrightarrow>
   in_range lo hi (Math_min (Fin 1) (Math_max (Fin 0) v))"
  by (cases v) (simp_all add: Math_min_def Math_max_def)

text \<open>
  C7. For every \<open>t\<close> in \<open>[0, 1]\<close> the colour map returns three channels, each a number
  in \<open>[0, 1]\<close>.
\<close>

theorem viridis_range:
  assumes "0 \<le> t" and "t \<le> 1"
  shows "unit_channels (viridis (Fin t))"
  using assms(1) by (rule viridis_nonneg_unit)

theorem viridis_range_witness:
  "(0::real) \<le> 1 / 2 \<and> (1 / 2 :: real) \<le> 1 \<and> unit_channels (viridis (Fin (1 / 2)))"
proof -
  have h0: "(0::real) \<le> 1 / 2" and h1: "(1 / 2 :: real) \<le> 1" by simp_all
  show ?thesis using h0 h1 viridis_range [OF h0 h1] by simp
qed

text \<open>
  C8. The claim is that the colour map clamps its input, so that \<open>viridis(t)\<close> equals
  \<open>viridis(clamp(t, 0, 1))\<close> for every \<open>t\<close>. It does not: at \<open>t = 2\<close> the red channel
  is 1, and at the clamped input 1 it is about 0.558, between 0.5 and 0.625.
\<close>

theorem viridis_input_not_clamped:
  "viridis (Fin 2) \<noteq> viridis (clamp (Fin 2) (Fin 0) (Fin 1))"
proof -
  have a: "fst (viridis (Fin 2)) = Fin 1"
    using clamp_above[OF red_at_2] by (simp add: viridis_def Let_def)
  have "in_range (1 / 2) (5 / 8) (fst (viridis (Fin 1)))"
    using clamp_inside[OF red_at_1] by (simp add: viridis_def Let_def)
  then have b: "fst (viridis (Fin 1)) \<noteq> Fin 1" by (cases "fst (viridis (Fin 1))") simp_all
  have "clamp (Fin 2) (Fin 0) (Fin 1) = Fin 1" by (simp add: clamp_Fin)
  then show ?thesis using a b by (metis)
qed

text \<open>
  C8, as amended. The colour map clamps each channel after evaluating the polynomial and
  leaves its input as it is (the builder clamps \<open>t\<close> before the call): for every finite
  \<open>t \<ge> 0\<close> each channel lies in \<open>[0, 1]\<close>, and for \<open>t\<close> in \<open>[0, 1]\<close>, where clamping
  changes nothing, \<open>viridis(clamp(t, 0, 1))\<close> is \<open>viridis(t)\<close>.
\<close>

theorem viridis_output_clamped:
  assumes "0 \<le> t"
  shows "unit_channels (viridis (Fin t))
         \<and> (t \<le> 1 \<longrightarrow> viridis (clamp (Fin t) (Fin 0) (Fin 1)) = viridis (Fin t))"
  using assms by (simp add: viridis_nonneg_unit clamp_Fin)

theorem viridis_output_clamped_witness:
  "(0::real) \<le> 2 \<and> unit_channels (viridis (Fin 2))
   \<and> (0::real) \<le> 1 \<and> (1::real) \<le> 1 \<and> viridis (clamp (Fin 1) (Fin 0) (Fin 1)) = viridis (Fin 1)"
proof -
  have h2: "(0::real) \<le> 2" and h1: "(0::real) \<le> 1" by simp_all
  show ?thesis using viridis_output_clamped [OF h2] viridis_output_clamped [OF h1] by simp
qed

section \<open>Properties of the index tables\<close>

lemma index_fold:
  "k \<le> N \<Longrightarrow>
   fold (\<lambda>i (arr, v). (arr[i := min v lastIdx], v + step)) [0..<k] (replicate N 0, 0)
     = (map (\<lambda>i. min (int i * step) lastIdx) [0..<k] @ replicate (N - k) 0, int k * step)"
proof (induction k)
  case 0
  then show ?case by simp
next
  case (Suc k)
  then have k: "k < N" by simp
  have r: "replicate (N - k) (0::int) = 0 # replicate (N - Suc k) 0"
    using k by (cases "N - k") (simp_all add: Suc_diff_Suc)
  show ?case using Suc.IH k
    by (simp add: r list_update_append algebra_simps)
qed

lemma index_table_eq:
  "index_table n step lastIdx = map (\<lambda>i. min (int i * step) lastIdx) [0..<nat n]"
  by (simp add: index_table_def index_fold)

lemma decimated_less:
  assumes "1 \<le> s" "int i < decimated R s"
  shows "int i * s \<le> R - 1"
proof -
  have "of_int (decimated R s) - 1 < of_int R / (of_int s :: real)"
    unfolding decimated_def using ceiling_correct[of "of_int R / (of_int s :: real)"] by simp
  moreover have "of_int (int i) \<le> (of_int (decimated R s) :: real) - 1"
    using assms(2) by (metis of_int_1 of_int_diff of_int_le_iff zle_diff1_eq)
  ultimately have "of_int (int i) < of_int R / (of_int s :: real)" by linarith
  then have "of_int (int i) * of_int s < (of_int R :: real)"
    using assms(1) by (simp add: pos_less_divide_eq)
  then have "int i * s < R" by (metis of_int_less_iff of_int_mult)
  then show ?thesis by simp
qed

lemma decimated_covers:
  assumes "1 \<le> s" "0 \<le> k" "k * s \<le> R - 1"
  shows "k < decimated R s"
proof -
  have "of_int k * of_int s < (of_int R :: real)"
    using assms(3) by (metis of_int_less_iff of_int_mult zle_diff1_eq)
  then have "of_int k < of_int R / (of_int s :: real)"
    using assms(1) by (simp add: pos_less_divide_eq)
  then show ?thesis unfolding decimated_def by (simp only: less_ceiling_iff)
qed

lemma far_edge_iff:
  assumes "1 \<le> R" "1 \<le> s"
  shows "(R - 1) \<in> set (index_table (decimated R s) s (R - 1)) \<longleftrightarrow> s dvd (R - 1)"
proof
  assume "R - 1 \<in> set (index_table (decimated R s) s (R - 1))"
  then obtain i where i: "i < nat (decimated R s)" "R - 1 = min (int i * s) (R - 1)"
    by (auto simp: index_table_eq)
  then have "int i * s \<le> R - 1" using decimated_less[OF assms(2), of i R] by simp
  with i(2) have "R - 1 = int i * s" by simp
  then show "s dvd (R - 1)" by simp
next
  assume "s dvd (R - 1)"
  then obtain k where k: "R - 1 = s * k" by (auto simp: dvd_def)
  have k0: "0 \<le> k"
  proof (rule ccontr)
    assume "\<not> 0 \<le> k"
    then have "k \<le> - 1" by simp
    then have "s * k \<le> s * (- 1)" using assms(2) by (intro mult_left_mono) simp_all
    with k assms show False by simp
  qed
  have "k < decimated R s" using decimated_covers[OF assms(2) k0] k by (simp add: mult.commute)
  then have "nat k < nat (decimated R s)" using k0 by simp
  moreover have "min (int (nat k) * s) (R - 1) = R - 1" using k k0 by (simp add: mult.commute)
  ultimately show "R - 1 \<in> set (index_table (decimated R s) s (R - 1))"
    unfolding index_table_eq set_map set_upt by (metis (no_types, lifting) atLeastLessThan_iff image_eqI le0)
qed

lemma plan_steps_eq: "plan_steps R C maxDim = calcSteps R C (max 100 (min 1200 maxDim))"
  by (simp add: plan_steps_def clamp_Fin MAX_DIM_def)

lemma plan_steps_pos:
  "1 \<le> stepY (plan_steps R C maxDim)" "1 \<le> stepX (plan_steps R C maxDim)"
  using calcSteps_pos[of R C "max 100 (min 1200 maxDim)"] by (simp_all add: plan_steps_eq)

text \<open>
  C2. The claim is that every down-sampled position maps to the source index
  \<open>min(position * stride, last)\<close> and that the far edge, the last source row or column,
  is always among the sampled indices. The first part holds; the second does not. For a
  grid of 102 rows and \<open>maxDim = 100\<close> the planner returns the row stride 2, the table
  has 51 entries, the even indices from 0 to 100, and the last row 101 is not sampled.
\<close>

theorem far_edge_not_sampled:
  "plan_steps 102 1 100 = \<lparr>stepY = 2, stepX = 1\<rparr> \<and> decimated 102 2 = 51
   \<and> 101 \<notin> set (index_table 51 2 101)"
proof -
  have "101 \<notin> set (index_table 51 2 101)"
    by (auto simp: index_table_eq min_def) presburger+
  then show ?thesis
    by (simp add: plan_steps_eq calcSteps_eq initial_step_def decimated_def
        MAX_VERTICES_def Let_def)
qed

text \<open>
  C2, as amended. Position \<open>i\<close> maps to \<open>min(i * stride, last)\<close>, which is always
  \<open>i * stride\<close>: the table has \<open>ceil(n / stride)\<close> entries, so the stride walk never
  passes the last index and the clamp never binds. Index 0 is always sampled, and the far
  edge \<open>n - 1\<close> is sampled exactly when the stride divides \<open>n - 1\<close>.
\<close>

theorem index_table_stride_walk:
  assumes "1 \<le> n" and "1 \<le> s"
  shows "index_table (decimated n s) s (n - 1)
           = map (\<lambda>i. min (int i * s) (n - 1)) [0..<nat (decimated n s)]
       \<and> (\<forall>i < nat (decimated n s). min (int i * s) (n - 1) = int i * s)
       \<and> 0 \<in> set (index_table (decimated n s) s (n - 1))
       \<and> (n - 1 \<in> set (index_table (decimated n s) s (n - 1)) \<longleftrightarrow> s dvd (n - 1))"
proof -
  have a: "\<forall>i < nat (decimated n s). min (int i * s) (n - 1) = int i * s"
    using decimated_less[OF assms(2), of _ n] by (simp add: min_def)
  have "0 < nat (decimated n s)" using decimated_pos[OF assms] by simp
  then have "min (int 0 * s) (n - 1) \<in> (\<lambda>i. min (int i * s) (n - 1)) ` {0..<nat (decimated n s)}"
    by (intro imageI) simp
  then have z: "0 \<in> set (index_table (decimated n s) s (n - 1))"
    using assms(1) by (simp add: index_table_eq)
  show ?thesis using a z far_edge_iff[OF assms] by (simp add: index_table_eq)
qed

theorem index_table_stride_walk_witness:
  "(1::int) \<le> 5 \<and> (1::int) \<le> 2 \<and> index_table (decimated 5 2) 2 (5 - 1) = [0, 2, 4]
   \<and> (5 - 1) \<in> set (index_table (decimated 5 2) 2 (5 - 1)) \<and> (2::int) dvd 5 - 1"
proof -
  have h: "(1::int) \<le> 5" "(1::int) \<le> 2" by simp_all
  have d: "nat (decimated 5 2) = Suc (Suc (Suc 0))" by (simp add: decimated_def)
  show ?thesis using index_table_stride_walk [OF h] by (simp add: d upt_rec)
qed

section \<open>Loops over index ranges\<close>

lemma fold_push_length:
  assumes "\<And>x fs. length (f x fs) = length fs + n"
  shows "length (fold f xs fs) = length fs + n * length xs"
  by (induction xs arbitrary: fs) (simp_all add: assms)

lemma fold_all:
  assumes "\<And>x s. x \<in> set xs \<Longrightarrow> P s \<Longrightarrow> P (f x s)" and "P s"
  shows "P (fold f xs s)"
  using assms by (induction xs arbitrary: s) simp_all

lemma length_upto_excl: "length (upto_excl n) = nat n"
  by (simp add: upto_excl_def)

lemma set_upto_excl: "i \<in> set (upto_excl n) \<longleftrightarrow> 0 \<le> i \<and> i < n"
proof
  assume "i \<in> set (upto_excl n)"
  then obtain k where "i = int k" "k < nat n" by (auto simp: upto_excl_def)
  then show "0 \<le> i \<and> i < n" by simp
next
  assume a: "0 \<le> i \<and> i < n"
  then have "nat i < nat n" "int (nat i) = i" by simp_all
  then have "i \<in> int ` {0..<nat n}" by (metis atLeastLessThan_iff image_eqI le0)
  then show "i \<in> set (upto_excl n)" by (simp add: upto_excl_def)
qed

lemma top_bound:
  assumes "0 \<le> r" "r < rows" "0 \<le> c" "c < cols"
  shows "0 \<le> top_at cols r c \<and> top_at cols r c < rows * cols"
proof -
  have "r * cols \<le> (rows - 1) * cols" using assms by (intro mult_right_mono) simp_all
  then have "r * cols + c < rows * cols" using assms(4) by (simp add: algebra_simps)
  moreover have "0 \<le> r * cols" using assms by simp
  ultimately show ?thesis using assms(3) by (simp add: top_at_def)
qed

section \<open>The triangle index\<close>

lemma bottom_bound:
  assumes "0 \<le> r" "r < rows" "0 \<le> c" "c < cols"
  shows "0 \<le> bottom_at (rows * cols) cols r c \<and> bottom_at (rows * cols) cols r c < 2 * (rows * cols)"
proof -
  have "bottom_at (rows * cols) cols r c = rows * cols + top_at cols r c" by (simp add: bottom_at_def top_at_def)
  then show ?thesis using top_bound[OF assms] by linarith
qed

lemma valid_top:
  assumes "0 \<le> r" "r < rows" "0 \<le> c" "c < cols"
  shows "0 \<le> top_at cols r c \<and> top_at cols r c < 2 * (rows * cols)"
  using top_bound[OF assms] by linarith

lemma fold_fold_push_length:
  assumes "\<And>x y fs. length (f x y fs) = length fs + n"
  shows "length (fold (\<lambda>x. fold (f x) ys) xs fs) = length fs + n * length ys * length xs"
  by (induction xs arbitrary: fs) (simp_all add: fold_push_length[where n = n] assms algebra_simps)

lemma top_faces_length:
  "length (top_faces rows cols fs) = length fs + 6 * nat (cols - 1) * nat (rows - 1)"
  unfolding top_faces_def Let_def
  by (subst fold_fold_push_length[where n = 6]) (simp_all add: length_upto_excl)

lemma bottom_faces_length:
  "length (bottom_faces tv rows cols fs) = length fs + 6 * nat (cols - 1) * nat (rows - 1)"
  unfolding bottom_faces_def Let_def
  by (subst fold_fold_push_length[where n = 6]) (simp_all add: length_upto_excl)

lemma north_faces_length: "length (north_faces tv cols fs) = length fs + 6 * nat (cols - 1)"
  unfolding north_faces_def Let_def
  by (subst fold_push_length[where n = 6]) (simp_all add: length_upto_excl)

lemma south_faces_length: "length (south_faces tv rows cols fs) = length fs + 6 * nat (cols - 1)"
  unfolding south_faces_def Let_def
  by (subst fold_push_length[where n = 6]) (simp_all add: length_upto_excl)

lemma west_faces_length: "length (west_faces tv rows cols fs) = length fs + 6 * nat (rows - 1)"
  unfolding west_faces_def Let_def
  by (subst fold_push_length[where n = 6]) (simp_all add: length_upto_excl)

lemma east_faces_length: "length (east_faces tv rows cols fs) = length fs + 6 * nat (rows - 1)"
  unfolding east_faces_def Let_def
  by (subst fold_push_length[where n = 6]) (simp_all add: length_upto_excl)

lemma all_faces_length:
  "length (all_faces rows cols) =
     12 * nat (cols - 1) * nat (rows - 1) + 12 * nat (cols - 1) + 12 * nat (rows - 1)"
  by (simp add: all_faces_def Let_def top_faces_length bottom_faces_length north_faces_length
      south_faces_length west_faces_length east_faces_length)

lemma all_faces_length_int:
  assumes "1 \<le> rows" "1 \<le> cols"
  shows "int (length (all_faces rows cols)) =
     3 * (4 * (rows - 1) * (cols - 1) + 4 * (rows - 1) + 4 * (cols - 1))"
  using assms by (simp add: all_faces_length algebra_simps)

lemma fold_fold_all:
  assumes "\<And>x y s. x \<in> set xs \<Longrightarrow> y \<in> set ys \<Longrightarrow> P s \<Longrightarrow> P (f x y s)" and "P s"
  shows "P (fold (\<lambda>x. fold (f x) ys) xs s)"
  by (rule fold_all[where P = P], rule fold_all[where P = P]) (simp_all add: assms)

lemma top_nonneg: "0 \<le> r \<Longrightarrow> 0 \<le> c \<Longrightarrow> 0 \<le> cols \<Longrightarrow> 0 \<le> top_at cols r c"
  by (simp add: top_at_def)

lemma bottom_nonneg:
  "0 \<le> r \<Longrightarrow> 0 \<le> c \<Longrightarrow> 0 \<le> cols \<Longrightarrow> 0 \<le> rows \<Longrightarrow> 0 \<le> bottom_at (rows * cols) cols r c"
  by (simp add: bottom_at_def)

lemma top_less:
  "0 \<le> r \<Longrightarrow> r < rows \<Longrightarrow> 0 \<le> c \<Longrightarrow> c < cols \<Longrightarrow> top_at cols r c < 2 * (rows * cols)"
  using valid_top by blast

lemma bottom_less:
  "0 \<le> r \<Longrightarrow> r < rows \<Longrightarrow> 0 \<le> c \<Longrightarrow> c < cols \<Longrightarrow>
   bottom_at (rows * cols) cols r c < 2 * (rows * cols)"
  using bottom_bound by blast

lemmas face_bounds = top_nonneg bottom_nonneg top_less bottom_less

lemma valid_push:
  "valid_index rows cols fs \<Longrightarrow> valid_index rows cols [a, b, c, d, e, f] \<Longrightarrow>
   valid_index rows cols (fs @ [a, b, c, d, e, f])"
  by (auto simp: valid_index_def)

lemma valid_six:
  "valid_index rows cols [a, b, c, d, e, f] \<longleftrightarrow>
   (0 \<le> a \<and> a < 2 * (rows * cols)) \<and> (0 \<le> b \<and> b < 2 * (rows * cols)) \<and>
   (0 \<le> c \<and> c < 2 * (rows * cols)) \<and> (0 \<le> d \<and> d < 2 * (rows * cols)) \<and>
   (0 \<le> e \<and> e < 2 * (rows * cols)) \<and> (0 \<le> f \<and> f < 2 * (rows * cols))"
  by (simp add: valid_index_def)

lemma top_faces_valid:
  assumes "valid_index rows cols fs"
  shows "valid_index rows cols (top_faces rows cols fs)"
  unfolding top_faces_def Let_def
  using assms
  by (intro fold_fold_all[where P = "valid_index rows cols"] valid_push)
     (auto simp: valid_six set_upto_excl intro!: face_bounds)

lemma bottom_faces_valid:
  assumes "valid_index rows cols fs"
  shows "valid_index rows cols (bottom_faces (rows * cols) rows cols fs)"
  unfolding bottom_faces_def Let_def
  using assms
  by (intro fold_fold_all[where P = "valid_index rows cols"] valid_push)
     (auto simp: valid_six set_upto_excl intro!: face_bounds)

lemma north_faces_valid:
  assumes "valid_index rows cols fs" "1 \<le> rows"
  shows "valid_index rows cols (north_faces (rows * cols) cols fs)"
  unfolding north_faces_def Let_def
  using assms
  by (intro fold_all[where P = "valid_index rows cols"] valid_push)
     (auto simp: valid_six set_upto_excl intro!: face_bounds)

lemma south_faces_valid:
  assumes "valid_index rows cols fs" "1 \<le> rows"
  shows "valid_index rows cols (south_faces (rows * cols) rows cols fs)"
  unfolding south_faces_def Let_def
  using assms
  by (intro fold_all[where P = "valid_index rows cols"] valid_push)
     (auto simp: valid_six set_upto_excl intro!: face_bounds)

lemma west_faces_valid:
  assumes "valid_index rows cols fs" "1 \<le> cols"
  shows "valid_index rows cols (west_faces (rows * cols) rows cols fs)"
  unfolding west_faces_def Let_def
  using assms
  by (intro fold_all[where P = "valid_index rows cols"] valid_push)
     (auto simp: valid_six set_upto_excl intro!: face_bounds)

lemma east_faces_valid:
  assumes "valid_index rows cols fs" "1 \<le> cols"
  shows "valid_index rows cols (east_faces (rows * cols) rows cols fs)"
  unfolding east_faces_def Let_def
  using assms
  by (intro fold_all[where P = "valid_index rows cols"] valid_push)
     (auto simp: valid_six set_upto_excl intro!: face_bounds)

lemma all_faces_valid:
  assumes "1 \<le> rows" "1 \<le> cols"
  shows "valid_index rows cols (all_faces rows cols)"
proof -
  have 0: "valid_index rows cols []" by (simp add: valid_index_def)
  show ?thesis unfolding all_faces_def Let_def
    by (intro bottom_faces_valid east_faces_valid west_faces_valid south_faces_valid
        north_faces_valid top_faces_valid 0 assms)
qed

section \<open>Nested loops and the elevation scan\<close>

lemma fold_nested_product:
  "fold (\<lambda>i. fold (f i) js) is s = fold (\<lambda>(i, j). f i j) (List.product is js) s"
  by (induction "is" arbitrary: s) (simp_all add: fold_map comp_def)

lemma row_major_index:
  "map (\<lambda>(i, j). i * W + j) (List.product [0..<H] [0..<W]) = [0..<H * W]"
proof (rule nth_equalityI)
  show "length (map (\<lambda>(i, j). i * W + j) (List.product [0..<H] [0..<W])) = length [0..<H * W]"
    by simp
next
  fix n assume "n < length (map (\<lambda>(i, j). i * W + j) (List.product [0..<H] [0..<W]))"
  then have n: "n < H * W" by simp
  then have W: "0 < W" by (cases W) simp_all
  have d: "n div W < H" using n W by (simp add: less_mult_imp_div_less)
  have m: "n mod W < W" using W by simp
  show "map (\<lambda>(i, j). i * W + j) (List.product [0..<H] [0..<W]) ! n = [0..<H * W] ! n"
    using n d m by (simp add: product_nth)
qed

lemma scan_fst:
  "fst (fold scan_step zs s) = fold (\<lambda>z m. if num_lt z m then z else m) zs (fst s)"
  by (induction zs arbitrary: s) (simp_all add: scan_step_def split: prod.splits)

lemma scan_least: "fst (fold scan_step zs (PInf, NInf)) = num_least zs"
  by (simp add: scan_fst num_least_def)

lemma num_le_less_trans:
  "\<not> num_lt b a \<Longrightarrow> num_lt b c \<Longrightarrow> a \<noteq> NaN \<Longrightarrow> num_lt a c"
  by (cases a; cases b; cases c) simp_all

lemma num_le_trans:
  "\<not> num_lt b a \<Longrightarrow> \<not> num_lt c b \<Longrightarrow> b \<noteq> NaN \<Longrightarrow> \<not> num_lt c a"
  by (cases a; cases b; cases c) simp_all

lemma num_lt_PInf: "z \<noteq> NaN \<Longrightarrow> z \<noteq> PInf \<Longrightarrow> num_lt z PInf"
  by (cases z) simp_all

lemma least_fold:
  assumes "NaN \<notin> set zs" "m \<noteq> NaN"
  shows "(fold (\<lambda>z m. if num_lt z m then z else m) zs m = m
           \<or> fold (\<lambda>z m. if num_lt z m then z else m) zs m \<in> set zs)
       \<and> \<not> num_lt m (fold (\<lambda>z m. if num_lt z m then z else m) zs m)
       \<and> (\<forall>z \<in> set zs. \<not> num_lt z (fold (\<lambda>z m. if num_lt z m then z else m) zs m))"
  using assms
proof (induction zs arbitrary: m)
  case Nil
  then show ?case by (cases m) simp_all
next
  case (Cons z zs)
  let ?m1 = "if num_lt z m then z else m"
  let ?r = "fold (\<lambda>z m. if num_lt z m then z else m) zs ?m1"
  have z: "z \<noteq> NaN" and zs: "NaN \<notin> set zs" using Cons.prems(1) by auto
  have m1: "?m1 \<noteq> NaN" using z Cons.prems(2) by simp
  note IH = Cons.IH[OF zs m1]
  have le_m: "\<not> num_lt m ?m1" by (cases z; cases m) simp_all
  have le_z: "\<not> num_lt z ?m1" by (cases z; cases m) simp_all
  have a: "?r = m \<or> ?r \<in> set (z # zs)" using IH by (auto split: if_splits)
  have b: "\<not> num_lt m ?r" using num_le_trans[of ?m1 ?r m] IH le_m m1 by blast
  have c: "\<not> num_lt z ?r" using num_le_trans[of ?m1 ?r z] IH le_z m1 by blast
  show ?case using a b c IH by simp
qed

lemma num_least_is_least:
  assumes "zs \<noteq> []" "NaN \<notin> set zs"
  shows "is_least (num_least zs) zs"
proof -
  note f = least_fold[OF assms(2), of PInf, folded num_least_def]
  have "num_least zs \<in> set zs"
  proof (rule ccontr)
    assume n: "num_least zs \<notin> set zs"
    then have e: "num_least zs = PInf" using f by simp
    obtain z where z: "z \<in> set zs" using assms(1) by (cases zs) auto
    then have "z \<noteq> NaN" "z \<noteq> PInf" using assms(2) n e by auto
    then have "num_lt z PInf" by (rule num_lt_PInf)
    then show False using f z e by simp
  qed
  then show ?thesis using f by (simp add: is_least_def)
qed

lemma arr_get_index_table:
  "i < nat n \<Longrightarrow> arr_get (index_table n s l) (int i) = Some (min (int i * s) l)"
  by (auto simp: arr_get_def index_table_eq)

lemma getZ_sample:
  assumes sy: "1 \<le> sy" and sx: "1 \<le> sx" and Z: "length Z = R * C"
    and i: "i < nat (decimated (int R) sy)" and j: "j < nat (decimated (int C) sx)"
  shows "getZ Z (int C) exag (arr_get (index_table (decimated (int R) sy) sy (int R - 1)) (int i))
           (arr_get (index_table (decimated (int C) sx) sx (int C - 1)) (int j))
         = num_mul (Fin (Z ! sampled_index R C sy sx i j)) (Fin exag)"
proof -
  let ?a = "min (int i * sy) (int R - 1)" and ?b = "min (int j * sx) (int C - 1)"
  have ia: "int i * sy \<le> int R - 1" using decimated_less[OF sy, of i "int R"] i by simp
  have jb: "int j * sx \<le> int C - 1" using decimated_less[OF sx, of j "int C"] j by simp
  have a: "0 \<le> ?a" "?a < int R" using ia sy by simp_all
  have b: "0 \<le> ?b" "?b < int C" using jb sx by simp_all
  have k: "0 \<le> ?a * int C + ?b" "?a * int C + ?b < int R * int C"
    using top_bound[OF a b] by (simp_all add: top_at_def)
  have n: "nat (?a * int C + ?b) = nat ?a * C + nat ?b"
    using a(1) b(1) by (simp add: nat_add_distrib nat_mult_distrib)
  have "arr_get Z (?a * int C + ?b) = Some (Z ! (nat ?a * C + nat ?b))"
    unfolding arr_get_def using k Z n by (simp only: of_nat_mult if_True simp_thms)
  then show ?thesis
    using i j
    by (simp only: getZ_def arr_get_index_table flat_index_def num_at_def option.case
        sampled_index_def)
qed

lemma sampled_zs_eq:
  "sampled_zs Z R C sy sx exag
     = map (\<lambda>(i, j). num_mul (Fin (Z ! sampled_index R C sy sx i j)) (Fin exag))
         (List.product [0..<nat (decimated (int R) sy)] [0..<nat (decimated (int C) sx)])"
  by (simp add: sampled_zs_def sampled_elevations_def sampled_points_def comp_def
      case_prod_unfold)

lemma surface_range_eq:
  assumes sy: "1 \<le> sy" and sx: "1 \<le> sx" and Z: "length Z = R * C"
  shows "surface_range Z (int C) exag (index_table (decimated (int R) sy) sy (int R - 1))
           (index_table (decimated (int C) sx) sx (int C - 1))
           (decimated (int R) sy) (decimated (int C) sx)
         = fold scan_step (sampled_zs Z R C sy sx exag) (PInf, NInf)"
proof -
  let ?H = "nat (decimated (int R) sy)" and ?W = "nat (decimated (int C) sx)"
  let ?g = "\<lambda>i j. getZ Z (int C) exag
      (arr_get (index_table (decimated (int R) sy) sy (int R - 1)) (int i))
      (arr_get (index_table (decimated (int C) sx) sx (int C - 1)) (int j))"
  have m: "map (\<lambda>(i, j). ?g i j) (List.product [0..<?H] [0..<?W])
        = sampled_zs Z R C sy sx exag"
    unfolding sampled_zs_eq by (rule map_cong) (auto simp: getZ_sample[OF sy sx Z])
  have "surface_range Z (int C) exag (index_table (decimated (int R) sy) sy (int R - 1))
           (index_table (decimated (int C) sx) sx (int C - 1))
           (decimated (int R) sy) (decimated (int C) sx)
        = fold (\<lambda>(i, j). scan_step (?g i j)) (List.product [0..<?H] [0..<?W]) (PInf, NInf)"
    unfolding surface_range_def Let_def by (rule fold_nested_product)
  also have "\<dots> = fold scan_step (map (\<lambda>(i, j). ?g i j) (List.product [0..<?H] [0..<?W])) (PInf, NInf)"
    by (simp add: fold_map comp_def case_prod_unfold)
  finally show ?thesis by (simp only: m)
qed

section \<open>The vertex buffers\<close>

lemma fold_measure:
  assumes "\<And>x s. m (f x s) = m s + (n::nat)"
  shows "m (fold f xs s) = m s + n * length xs"
  by (induction xs arbitrary: s) (simp_all add: assms)

lemma fold_fold_measure:
  assumes "\<And>x y s. m (f x y s) = m s + (n::nat)"
  shows "m (fold (\<lambda>x. fold (f x) ys) xs s) = m s + n * length ys * length xs"
  by (induction xs arbitrary: s) (simp_all add: fold_measure[where m = m and n = n] assms algebra_simps)

lemma push_pos_simps:
  "positions (push_pos v b) = (positions b)[cursor_p b := fround v]"
  "cursor_p (push_pos v b) = cursor_p b + 1"
  "colors (push_pos v b) = colors b"
  "cursor_ci (push_pos v b) = cursor_ci b"
  by (simp_all add: push_pos_def Float32_set_def)

lemma push_col_simps:
  "positions (push_col v b) = positions b"
  "cursor_p (push_col v b) = cursor_p b"
  "colors (push_col v b) = (colors b)[cursor_ci b := fround v]"
  "cursor_ci (push_col v b) = cursor_ci b + 1"
  by (simp_all add: push_col_def Float32_set_def)

lemma top_vertex_simps:
  "positions (top_vertex lons Z C exag lon0 mLon y i0 j0 b)
     = (positions b)[cursor_p b := fround (num_mul (num_sub (num_at lons j0) lon0) mLon),
                     cursor_p b + 1 := fround y,
                     cursor_p b + 2 := fround (getZ Z C exag i0 j0)]"
  "cursor_p (top_vertex lons Z C exag lon0 mLon y i0 j0 b) = cursor_p b + 3"
  "length (colors (top_vertex lons Z C exag lon0 mLon y i0 j0 b)) = length (colors b)"
  by (simp_all add: top_vertex_def Let_def push_pos_simps push_col_simps)

lemma bottom_vertex_simps:
  "positions (bottom_vertex bz W ii jj b)
     = (positions b)[cursor_p b := fround (buf_get (positions b) ((ii * W + jj) * 3)),
                     cursor_p b + 1 :=
                       fround (buf_get ((positions b)[cursor_p b :=
                                 fround (buf_get (positions b) ((ii * W + jj) * 3))])
                         ((ii * W + jj) * 3 + 1)),
                     cursor_p b + 2 := fround bz]"
  "cursor_p (bottom_vertex bz W ii jj b) = cursor_p b + 3"
  "length (colors (bottom_vertex bz W ii jj b)) = length (colors b)"
  by (simp_all add: bottom_vertex_def Let_def push_pos_simps push_col_simps)

lemma colour_vertex_simps:
  "positions (colour_vertex zmin dz W ii jj b) = positions b"
  "cursor_p (colour_vertex zmin dz W ii jj b) = cursor_p b"
  "length (colors (colour_vertex zmin dz W ii jj b)) = length (colors b)"
  by (simp_all add: colour_vertex_def Let_def Float32_set_def split: prod.splits)

lemma top_loop_cursor:
  "cursor_p (top_loop lats lons Z C exag lat0 lon0 mLat mLon rowsIdx colsIdx rows cols b)
     = cursor_p b + 3 * nat cols * nat rows"
  unfolding top_loop_def Let_def
  by (subst fold_fold_measure[where n = 3]) (simp_all add: top_vertex_simps)

lemma top_loop_length:
  "length (positions (top_loop lats lons Z C exag lat0 lon0 mLat mLon rowsIdx colsIdx rows cols b))
     = length (positions b)"
  "length (colors (top_loop lats lons Z C exag lat0 lon0 mLat mLon rowsIdx colsIdx rows cols b))
     = length (colors b)"
  unfolding top_loop_def Let_def
  by (subst fold_fold_measure[where n = 0], simp_all add: top_vertex_simps)+

lemma bottom_loop_length:
  "length (positions (bottom_loop bz rows cols b)) = length (positions b)"
  "length (colors (bottom_loop bz rows cols b)) = length (colors b)"
  unfolding bottom_loop_def
  by (subst fold_fold_measure[where n = 0], simp_all add: bottom_vertex_simps)+

lemma colour_loop_positions: "positions (colour_loop zmin dz rows cols b) = positions b"
  unfolding colour_loop_def
  by (rule fold_fold_all[where P = "\<lambda>s. positions s = positions b"])
     (simp_all add: colour_vertex_simps)

lemma colour_loop_length: "length (colors (colour_loop zmin dz rows cols b)) = length (colors b)"
  unfolding colour_loop_def
  by (subst fold_fold_measure[where n = 0], simp_all add: colour_vertex_simps)

lemma bottom_loop_flat:
  "bottom_loop bz rows cols b = fold (bottom_vertex bz (nat cols) 0) [0..<nat rows * nat cols] b"
proof -
  have e: "\<And>i j. bottom_vertex bz (nat cols) i j = bottom_vertex bz (nat cols) 0 (i * nat cols + j)"
    by (rule ext) (simp add: bottom_vertex_def)
  have "bottom_loop bz rows cols b
        = fold (\<lambda>(i, j). bottom_vertex bz (nat cols) i j) (List.product [0..<nat rows] [0..<nat cols]) b"
    unfolding bottom_loop_def by (rule fold_nested_product)
  also have "\<dots> = fold (bottom_vertex bz (nat cols) 0)
       (map (\<lambda>(i, j). i * nat cols + j) (List.product [0..<nat rows] [0..<nat cols])) b"
    by (subst e) (simp add: fold_map comp_def case_prod_unfold)
  finally show ?thesis by (simp only: row_major_index)
qed

lemma bottom_fold_inv:
  assumes c: "cursor_p b = 3 * T" and l: "length (positions b) = 6 * T" and n: "n \<le> T"
    and f32: "\<forall>i < 3 * T. fround (positions b ! i) = positions b ! i"
  shows "cursor_p (fold (bottom_vertex bz W 0) [0..<n] b) = 3 * T + 3 * n
       \<and> length (positions (fold (bottom_vertex bz W 0) [0..<n] b)) = 6 * T
       \<and> (\<forall>i < 3 * T. positions (fold (bottom_vertex bz W 0) [0..<n] b) ! i = positions b ! i)
       \<and> (\<forall>k < n. positions (fold (bottom_vertex bz W 0) [0..<n] b) ! (3 * (T + k)) = positions b ! (3 * k)
                 \<and> positions (fold (bottom_vertex bz W 0) [0..<n] b) ! (3 * (T + k) + 1) = positions b ! (3 * k + 1)
                 \<and> positions (fold (bottom_vertex bz W 0) [0..<n] b) ! (3 * (T + k) + 2) = fround bz)"
  using n
proof (induction n)
  case 0
  then show ?case using c l by simp
next
  case (Suc n)
  let ?b = "fold (bottom_vertex bz W 0) [0..<n] b"
  let ?P = "positions ?b"
  have n: "n < T" using Suc.prems by simp
  have IH: "cursor_p ?b = 3 * T + 3 * n" "length ?P = 6 * T"
    "\<And>i. i < 3 * T \<Longrightarrow> ?P ! i = positions b ! i"
    "\<And>k. k < n \<Longrightarrow> ?P ! (3 * (T + k)) = positions b ! (3 * k)"
    "\<And>k. k < n \<Longrightarrow> ?P ! (3 * (T + k) + 1) = positions b ! (3 * k + 1)"
    "\<And>k. k < n \<Longrightarrow> ?P ! (3 * (T + k) + 2) = fround bz"
    using Suc.IH n by simp_all
  let ?c = "3 * T + 3 * n"
  have f: "fold (bottom_vertex bz W 0) [0..<Suc n] b = bottom_vertex bz W 0 n ?b" by simp
  have s0: "fround (positions b ! (3 * n)) = positions b ! (3 * n)"
    using f32 n by simp
  have s1: "fround (positions b ! (3 * n + 1)) = positions b ! (3 * n + 1)"
    using f32 n by simp
  have r0: "fround (buf_get ?P (n * 3)) = positions b ! (3 * n)"
    using IH(2) IH(3)[of "3 * n"] n s0 by (simp add: buf_get_def mult.commute)
  have r1: "fround (buf_get (?P[?c := positions b ! (3 * n)]) (n * 3 + 1)) = positions b ! (3 * n + 1)"
    using IH(2) IH(3)[of "3 * n + 1"] n s1 by (simp add: buf_get_def mult.commute nth_list_update)
  have P': "positions (bottom_vertex bz W 0 n ?b)
            = ?P[?c := positions b ! (3 * n), ?c + 1 := positions b ! (3 * n + 1), ?c + 2 := fround bz]"
    by (simp only: bottom_vertex_simps IH(1) mult_0 add_0 r0 r1)
  have c': "cursor_p (bottom_vertex bz W 0 n ?b) = 3 * T + 3 * Suc n"
    by (simp add: bottom_vertex_simps IH(1))
  have l': "length (positions (bottom_vertex bz W 0 n ?b)) = 6 * T"
    by (simp add: P' IH(2))
  have pre: "\<forall>i < 3 * T. positions (bottom_vertex bz W 0 n ?b) ! i = positions b ! i"
    using IH(3) by (simp add: P')
  have old: "\<And>k. k < n \<Longrightarrow>
       positions (bottom_vertex bz W 0 n ?b) ! (3 * (T + k)) = positions b ! (3 * k)
     \<and> positions (bottom_vertex bz W 0 n ?b) ! (3 * (T + k) + 1) = positions b ! (3 * k + 1)
     \<and> positions (bottom_vertex bz W 0 n ?b) ! (3 * (T + k) + 2) = fround bz"
    using IH(4,5,6) by (simp add: P')
  have new: "positions (bottom_vertex bz W 0 n ?b) ! (3 * (T + n)) = positions b ! (3 * n)
     \<and> positions (bottom_vertex bz W 0 n ?b) ! (3 * (T + n) + 1) = positions b ! (3 * n + 1)
     \<and> positions (bottom_vertex bz W 0 n ?b) ! (3 * (T + n) + 2) = fround bz"
    using n by (simp add: P' IH(2) nth_list_update)
  have all: "\<forall>k < Suc n.
       positions (bottom_vertex bz W 0 n ?b) ! (3 * (T + k)) = positions b ! (3 * k)
     \<and> positions (bottom_vertex bz W 0 n ?b) ! (3 * (T + k) + 1) = positions b ! (3 * k + 1)
     \<and> positions (bottom_vertex bz W 0 n ?b) ! (3 * (T + k) + 2) = fround bz"
    using old new by (auto simp: less_Suc_eq)
  show ?case unfolding f using c' l' pre all by blast
qed

lemma fold_write3:
  assumes pos: "\<And>x b. positions (f x b)
                  = (positions b)[cursor_p b := vx x, cursor_p b + 1 := vy x, cursor_p b + 2 := vz x]"
    and cur: "\<And>x b. cursor_p (f x b) = cursor_p b + 3"
  shows "cursor_p b + 3 * length xs \<le> length (positions b) \<Longrightarrow>
         \<forall>k < length xs. positions (fold f xs b) ! (cursor_p b + 3 * k) = vx (xs ! k)
              \<and> positions (fold f xs b) ! (cursor_p b + 3 * k + 1) = vy (xs ! k)
              \<and> positions (fold f xs b) ! (cursor_p b + 3 * k + 2) = vz (xs ! k)"
proof (induction xs rule: rev_induct)
  case Nil
  then show ?case by simp
next
  case (snoc x xs)
  let ?b = "fold f xs b"
  have c: "cursor_p ?b = cursor_p b + 3 * length xs"
    using fold_measure[where m = cursor_p and f = f and n = 3, OF cur] by simp
  have l: "length (positions ?b) = length (positions b)"
    by (rule fold_all[where P = "\<lambda>s. length (positions s) = length (positions b)"])
       (simp_all add: pos)
  have IH: "\<And>k. k < length xs \<Longrightarrow> positions ?b ! (cursor_p b + 3 * k) = vx (xs ! k)"
    "\<And>k. k < length xs \<Longrightarrow> positions ?b ! (cursor_p b + 3 * k + 1) = vy (xs ! k)"
    "\<And>k. k < length xs \<Longrightarrow> positions ?b ! (cursor_p b + 3 * k + 2) = vz (xs ! k)"
    using snoc by simp_all
  have e: "fold f (xs @ [x]) b = f x ?b" by simp
  have P: "positions (f x ?b)
           = (positions ?b)[cursor_p b + 3 * length xs := vx x,
                            cursor_p b + 3 * length xs + 1 := vy x,
                            cursor_p b + 3 * length xs + 2 := vz x]"
    by (simp add: pos c)
  have old: "\<And>k. k < length xs \<Longrightarrow>
        positions (f x ?b) ! (cursor_p b + 3 * k) = vx ((xs @ [x]) ! k)
      \<and> positions (f x ?b) ! (cursor_p b + 3 * k + 1) = vy ((xs @ [x]) ! k)
      \<and> positions (f x ?b) ! (cursor_p b + 3 * k + 2) = vz ((xs @ [x]) ! k)"
    using IH by (simp add: P nth_append)
  have new: "positions (f x ?b) ! (cursor_p b + 3 * length xs) = vx ((xs @ [x]) ! length xs)
      \<and> positions (f x ?b) ! (cursor_p b + 3 * length xs + 1) = vy ((xs @ [x]) ! length xs)
      \<and> positions (f x ?b) ! (cursor_p b + 3 * length xs + 2) = vz ((xs @ [x]) ! length xs)"
    using snoc.prems by (simp add: P l nth_list_update)
  show ?case unfolding e using old new by (auto simp: less_Suc_eq)
qed

lemma top_loop_z:
  assumes c: "cursor_p b = 0" and l: "3 * (nat rows * nat cols) \<le> length (positions b)"
    and k: "k < nat rows * nat cols"
  shows "positions (top_loop lats lons Z C exag lat0 lon0 mLat mLon rowsIdx colsIdx rows cols b)
           ! (3 * k + 2)
         = fround (getZ Z C exag (arr_get rowsIdx (int (k div nat cols)))
                     (arr_get colsIdx (int (k mod nat cols))))"
proof -
  let ?f = "\<lambda>(i, j). top_vertex lons Z C exag lon0 mLon
              (num_mul (num_sub (num_at lats (arr_get rowsIdx (int i))) lat0) mLat)
              (arr_get rowsIdx (int i)) (arr_get colsIdx (int j))"
  let ?xs = "List.product [0..<nat rows] [0..<nat cols]"
  have flat: "top_loop lats lons Z C exag lat0 lon0 mLat mLon rowsIdx colsIdx rows cols b
              = fold ?f ?xs b"
    unfolding top_loop_def Let_def by (rule fold_nested_product)
  have len: "cursor_p b + 3 * length ?xs \<le> length (positions b)" using c l by simp
  have "\<forall>k < length ?xs. positions (fold ?f ?xs b) ! (cursor_p b + 3 * k)
              = (\<lambda>(i, j). fround (num_mul (num_sub (num_at lons (arr_get colsIdx (int j))) lon0) mLon)) (?xs ! k)
         \<and> positions (fold ?f ?xs b) ! (cursor_p b + 3 * k + 1)
              = (\<lambda>(i, j). fround (num_mul (num_sub (num_at lats (arr_get rowsIdx (int i))) lat0) mLat)) (?xs ! k)
         \<and> positions (fold ?f ?xs b) ! (cursor_p b + 3 * k + 2)
              = (\<lambda>(i, j). fround (getZ Z C exag (arr_get rowsIdx (int i)) (arr_get colsIdx (int j)))) (?xs ! k)"
    by (rule fold_write3[OF _ _ len]) (simp_all add: case_prod_unfold top_vertex_simps)
  then have "positions (fold ?f ?xs b) ! (3 * k + 2)
              = (\<lambda>(i, j). fround (getZ Z C exag (arr_get rowsIdx (int i)) (arr_get colsIdx (int j)))) (?xs ! k)"
    using k c by simp
  moreover have "?xs ! k = (k div nat cols, k mod nat cols)"
  proof -
    have W: "0 < nat cols" using k by (cases "nat cols") simp_all
    have "k div nat cols < nat rows" using k W by (simp add: less_mult_imp_div_less)
    then show ?thesis using k W by (simp add: product_nth)
  qed
  ultimately show ?thesis by (simp add: flat)
qed

lemma fround_zero: "fround (Fin 0) = Fin 0"
  using round_to_exact[where p = 24 and emin = "- 126" and emax = 127 and m = 0 and q = 0
      and x = 0] by simp

lemma f32_update1:
  assumes "\<forall>v \<in> set xs. fround v = v"
  shows "\<forall>v \<in> set (xs[i := fround w]). fround v = v"
proof
  fix v assume "v \<in> set (xs[i := fround w])"
  then have "v \<in> insert (fround w) (set xs)"
    using set_update_subset_insert[of xs i "fround w"] by blast
  then show "fround v = v" using assms fround_idem by blast
qed

lemma f32_update:
  assumes "\<forall>v \<in> set xs. fround v = v"
  shows "\<forall>v \<in> set (xs[i := fround w, j := fround x, k := fround y]). fround v = v"
  by (intro f32_update1 assms)

lemma top_loop_f32:
  assumes "\<forall>v \<in> set (positions b). fround v = v"
  shows "\<forall>v \<in> set (positions
           (top_loop lats lons Z C exag lat0 lon0 mLat mLon rowsIdx colsIdx rows cols b)).
           fround v = v"
  unfolding top_loop_def Let_def
proof (rule fold_fold_all[where P = "\<lambda>s. \<forall>v \<in> set (positions s). fround v = v"])
  show "\<forall>v \<in> set (positions b). fround v = v" by (rule assms)
next
  fix x y and s :: buffers
  assume "\<forall>v \<in> set (positions s). fround v = v"
  then show "\<forall>v\<in>set (positions (top_vertex lons Z C exag lon0 mLon
          (num_mul (num_sub (num_at lats (arr_get rowsIdx (int x))) lat0) mLat)
          (arr_get rowsIdx (int x)) (arr_get colsIdx (int y)) s)). fround v = v"
    unfolding top_vertex_simps by (rule f32_update)
qed

section \<open>Properties of the solid mesh builder\<close>

lemma build_rows1:
  "res_rows1 (buildSolidGeometry lats lons Z shape exag base maxDim)
     = decimated (int (fst shape)) (stepY (plan_steps (int (fst shape)) (int (snd shape)) maxDim))"
  unfolding buildSolidGeometry_def Let_def by (simp only: solid.select_convs)

lemma build_cols1:
  "res_cols1 (buildSolidGeometry lats lons Z shape exag base maxDim)
     = decimated (int (snd shape)) (stepX (plan_steps (int (fst shape)) (int (snd shape)) maxDim))"
  unfolding buildSolidGeometry_def Let_def by (simp only: solid.select_convs)

lemma build_index:
  "geom_index (buildSolidGeometry lats lons Z shape exag base maxDim)
     = all_faces (res_rows1 (buildSolidGeometry lats lons Z shape exag base maxDim))
         (res_cols1 (buildSolidGeometry lats lons Z shape exag base maxDim))"
  unfolding buildSolidGeometry_def Let_def by (simp only: solid.select_convs)

lemma build_bottomZ:
  "res_bottomZ (buildSolidGeometry lats lons Z (R, C) exag base maxDim)
     = (let st = plan_steps (int R) (int C) maxDim;
            rows1 = decimated (int R) (stepY st); cols1 = decimated (int C) (stepX st)
        in num_sub (fst (surface_range Z (int C) exag
                          (index_table rows1 (stepY st) (int R - 1))
                          (index_table cols1 (stepX st) (int C - 1)) rows1 cols1))
             (Fin \<bar>base\<bar>))"
  unfolding buildSolidGeometry_def Let_def by (simp only: solid.select_convs fst_conv snd_conv)

lemma build_position_length:
  "length (geom_position (buildSolidGeometry lats lons Z shape exag base maxDim))
     = nat (res_rows1 (buildSolidGeometry lats lons Z shape exag base maxDim)
            * res_cols1 (buildSolidGeometry lats lons Z shape exag base maxDim) * 2 * 3)"
  unfolding buildSolidGeometry_def Let_def
  by (simp only: solid.select_convs colour_loop_positions bottom_loop_length top_loop_length
      buffers.select_convs length_replicate)

lemma build_color_length:
  "length (geom_color (buildSolidGeometry lats lons Z shape exag base maxDim))
     = nat (res_rows1 (buildSolidGeometry lats lons Z shape exag base maxDim)
            * res_cols1 (buildSolidGeometry lats lons Z shape exag base maxDim) * 2 * 3)"
  unfolding buildSolidGeometry_def Let_def
  by (simp only: solid.select_convs colour_loop_length bottom_loop_length top_loop_length
      buffers.select_convs length_replicate)

lemma build_dims_pos:
  assumes "1 \<le> fst shape" "1 \<le> snd shape"
  shows "1 \<le> res_rows1 (buildSolidGeometry lats lons Z shape exag base maxDim)"
    "1 \<le> res_cols1 (buildSolidGeometry lats lons Z shape exag base maxDim)"
  using assms by (simp_all add: build_rows1 build_cols1 decimated_pos plan_steps_pos)

lemma build_position_eq:
  "geom_position (buildSolidGeometry lats lons Z (R, C) exag base maxDim)
     = (let st = plan_steps (int R) (int C) maxDim;
            rows1 = decimated (int R) (stepY st); cols1 = decimated (int C) (stepX st);
            avgLatDeg = num_div (num_add (num_at lats (Some 0))
                                  (num_at lats (Some (int (length lats) - 1)))) (Fin 2);
            avgLatRad = num_div (num_mul avgLatDeg (lit pi)) (Fin 180);
            rowsIdx = index_table rows1 (stepY st) (int R - 1);
            colsIdx = index_table cols1 (stepX st) (int C - 1);
            b = \<lparr>positions = replicate (nat (rows1 * cols1 * 2 * 3)) (Fin 0),
                 colors = replicate (nat (rows1 * cols1 * 2 * 3)) (Fin 0),
                 cursor_p = 0, cursor_ci = 0\<rparr>
        in positions (bottom_loop (res_bottomZ (buildSolidGeometry lats lons Z (R, C) exag base maxDim))
             rows1 cols1
             (top_loop lats lons Z (int C) exag (num_at lats (arr_get rowsIdx 0))
                (num_at lons (arr_get colsIdx 0)) (Fin 111320)
                (num_mul (Fin 111320) (Math_cos avgLatRad)) rowsIdx colsIdx rows1 cols1 b)))"
  unfolding buildSolidGeometry_def Let_def
  by (simp only: solid.select_convs colour_loop_positions fst_conv snd_conv)

lemma build_vertices:
  fixes lats lons Z :: "real list" and R C k :: nat and exag base maxDim :: real
  assumes R: "1 \<le> R" and C: "1 \<le> C"
  defines "res \<equiv> buildSolidGeometry lats lons Z (R, C) exag base maxDim"
  defines "T \<equiv> nat (res_rows1 res * res_cols1 res)"
  assumes k: "k < T"
  shows "geom_position res ! (3 * (T + k)) = geom_position res ! (3 * k)"
    and "geom_position res ! (3 * (T + k) + 1) = geom_position res ! (3 * k + 1)"
    and "geom_position res ! (3 * (T + k) + 2) = fround (res_bottomZ res)"
    and "geom_position res ! (3 * k + 2)
         = fround (getZ Z (int C) exag
             (arr_get (index_table (res_rows1 res) (stepY (plan_steps (int R) (int C) maxDim)) (int R - 1))
                (int (k div nat (res_cols1 res))))
             (arr_get (index_table (res_cols1 res) (stepX (plan_steps (int R) (int C) maxDim)) (int C - 1))
                (int (k mod nat (res_cols1 res)))))"
proof -
  let ?st = "plan_steps (int R) (int C) maxDim"
  let ?rows = "decimated (int R) (stepY ?st)" and ?cols = "decimated (int C) (stepX ?st)"
  let ?rowsIdx = "index_table ?rows (stepY ?st) (int R - 1)"
  let ?colsIdx = "index_table ?cols (stepX ?st) (int C - 1)"
  let ?b0 = "\<lparr>positions = replicate (nat (?rows * ?cols * 2 * 3)) (Fin 0),
              colors = replicate (nat (?rows * ?cols * 2 * 3)) (Fin 0),
              cursor_p = 0, cursor_ci = 0\<rparr>"
  let ?avg = "num_div (num_mul (num_div (num_add (num_at lats (Some 0))
                 (num_at lats (Some (int (length lats) - 1)))) (Fin 2)) (lit pi)) (Fin 180)"
  let ?b1 = "top_loop lats lons Z (int C) exag (num_at lats (arr_get ?rowsIdx 0))
                (num_at lons (arr_get ?colsIdx 0)) (Fin 111320)
                (num_mul (Fin 111320) (Math_cos ?avg)) ?rowsIdx ?colsIdx ?rows ?cols ?b0"
  have rows: "res_rows1 res = ?rows" and cols: "res_cols1 res = ?cols"
    by (simp_all add: res_def build_rows1 build_cols1)
  have pos: "1 \<le> ?rows" "1 \<le> ?cols"
    using R C by (simp_all add: decimated_pos plan_steps_pos)
  have T: "T = nat ?rows * nat ?cols"
    using pos by (simp add: T_def rows cols nat_mult_distrib)
  have six: "nat (?rows * ?cols * 2 * 3) = 6 * T"
    using pos by (simp add: T nat_mult_distrib)
  have P: "geom_position res = positions (bottom_loop (res_bottomZ res) ?rows ?cols ?b1)"
    unfolding res_def by (simp only: build_position_eq Let_def)
  have c1: "cursor_p ?b1 = 3 * T" by (simp add: top_loop_cursor T)
  have l1: "length (positions ?b1) = 6 * T" by (simp only: top_loop_length buffers.select_convs length_replicate six)
  have flat: "bottom_loop (res_bottomZ res) ?rows ?cols ?b1
              = fold (bottom_vertex (res_bottomZ res) (nat ?cols) 0) [0..<T] ?b1"
    by (simp only: bottom_loop_flat T)
  have "\<forall>v \<in> set (positions ?b1). fround v = v"
    by (rule top_loop_f32) (simp add: fround_zero del: fround.simps)
  then have f32: "\<forall>i < 3 * T. fround (positions ?b1 ! i) = positions ?b1 ! i"
    using l1 by simp
  note inv = bottom_fold_inv[OF c1 l1 order_refl f32, of "res_bottomZ res" "nat ?cols"]
  have pre: "\<And>i. i < 3 * T \<Longrightarrow> geom_position res ! i = positions ?b1 ! i"
    using inv by (simp only: P flat)
  have bot: "geom_position res ! (3 * (T + k)) = positions ?b1 ! (3 * k)"
    "geom_position res ! (3 * (T + k) + 1) = positions ?b1 ! (3 * k + 1)"
    "geom_position res ! (3 * (T + k) + 2) = fround (res_bottomZ res)"
    using inv k by (simp_all only: P flat)
  show "geom_position res ! (3 * (T + k)) = geom_position res ! (3 * k)"
    using bot(1) pre[of "3 * k"] k by simp
  show "geom_position res ! (3 * (T + k) + 1) = geom_position res ! (3 * k + 1)"
    using bot(2) pre[of "3 * k + 1"] k by simp
  show "geom_position res ! (3 * (T + k) + 2) = fround (res_bottomZ res)" by (rule bot(3))
  have "positions ?b1 ! (3 * k + 2)
        = fround (getZ Z (int C) exag (arr_get ?rowsIdx (int (k div nat ?cols)))
            (arr_get ?colsIdx (int (k mod nat ?cols))))"
    by (rule top_loop_z) (simp_all only: buffers.select_convs length_replicate six, use k T in simp_all)
  then show "geom_position res ! (3 * k + 2)
         = fround (getZ Z (int C) exag
             (arr_get (index_table (res_rows1 res) (stepY ?st) (int R - 1))
                (int (k div nat (res_cols1 res))))
             (arr_get (index_table (res_cols1 res) (stepX ?st) (int C - 1))
                (int (k mod nat (res_cols1 res)))))"
    using pre[of "3 * k + 2"] k by (simp add: rows cols)
qed

lemma sampled_zs_length:
  "length (sampled_zs Z R C sy sx exag) = nat (decimated (int R) sy) * nat (decimated (int C) sx)"
  by (simp add: sampled_zs_eq)

lemma sampled_zs_nth:
  assumes "k < nat (decimated (int R) sy) * nat (decimated (int C) sx)"
  shows "sampled_zs Z R C sy sx exag ! k
         = num_mul (Fin (Z ! sampled_index R C sy sx (k div nat (decimated (int C) sx))
                                (k mod nat (decimated (int C) sx)))) (Fin exag)"
proof -
  let ?W = "nat (decimated (int C) sx)" and ?H = "nat (decimated (int R) sy)"
  have W: "0 < ?W" using assms by (cases ?W) simp_all
  have "k div ?W < ?H" using assms W by (simp add: less_mult_imp_div_less)
  then show ?thesis using assms W by (simp add: sampled_zs_eq product_nth)
qed

lemma sampled_zs_not_NaN: "NaN \<notin> set (sampled_zs Z R C sy sx exag)"
  by (auto simp: sampled_zs_def eq_commute[of NaN])

lemma build_bottomZ_eq:
  assumes R: "1 \<le> R" and C: "1 \<le> C" and Z: "length Z = R * C"
  shows "res_bottomZ (buildSolidGeometry lats lons Z (R, C) exag base maxDim)
         = num_sub (num_least (sampled_zs Z R C (stepY (plan_steps (int R) (int C) maxDim))
                                 (stepX (plan_steps (int R) (int C) maxDim)) exag)) (Fin \<bar>base\<bar>)"
  by (simp only: build_bottomZ Let_def surface_range_eq[OF plan_steps_pos Z] scan_least)

lemma build_least:
  assumes R: "1 \<le> R" and C: "1 \<le> C"
  shows "is_least (num_least (sampled_zs Z R C (stepY (plan_steps (int R) (int C) maxDim))
                                 (stepX (plan_steps (int R) (int C) maxDim)) exag))
           (sampled_zs Z R C (stepY (plan_steps (int R) (int C) maxDim))
              (stepX (plan_steps (int R) (int C) maxDim)) exag)"
proof (rule num_least_is_least)
  let ?st = "plan_steps (int R) (int C) maxDim"
  have pos: "1 \<le> decimated (int R) (stepY ?st)" "1 \<le> decimated (int C) (stepX ?st)"
    using R C by (simp_all add: decimated_pos plan_steps_pos)
  then have "0 < length (sampled_zs Z R C (stepY ?st) (stepX ?st) exag)"
    by (simp add: sampled_zs_length)
  then show "sampled_zs Z R C (stepY ?st) (stepX ?st) exag \<noteq> []" by simp
  show "NaN \<notin> set (sampled_zs Z R C (stepY ?st) (stepX ?st) exag)"
    by (rule sampled_zs_not_NaN)
qed

lemma build_top_z:
  fixes lats lons Z :: "real list" and R C k :: nat and exag base maxDim :: real
  assumes R: "1 \<le> R" and C: "1 \<le> C" and Z: "length Z = R * C"
  defines "res \<equiv> buildSolidGeometry lats lons Z (R, C) exag base maxDim"
  assumes k: "k < nat (res_rows1 res * res_cols1 res)"
  shows "geom_position res ! (3 * k + 2)
         = fround (sampled_zs Z R C (stepY (plan_steps (int R) (int C) maxDim))
                  (stepX (plan_steps (int R) (int C) maxDim)) exag ! k)"
proof -
  let ?st = "plan_steps (int R) (int C) maxDim"
  let ?rows = "decimated (int R) (stepY ?st)" and ?cols = "decimated (int C) (stepX ?st)"
  have rows: "res_rows1 res = ?rows" and cols: "res_cols1 res = ?cols"
    by (simp_all add: res_def build_rows1 build_cols1)
  have pos: "1 \<le> ?rows" "1 \<le> ?cols"
    using R C by (simp_all add: decimated_pos plan_steps_pos)
  have k': "k < nat ?rows * nat ?cols"
    using k pos by (simp add: rows cols nat_mult_distrib)
  have W: "0 < nat ?cols" using pos by simp
  have d: "k div nat ?cols < nat ?rows" using k' W by (simp add: less_mult_imp_div_less)
  have m: "k mod nat ?cols < nat ?cols" using W by simp
  have "geom_position res ! (3 * k + 2)
        = fround (getZ Z (int C) exag
            (arr_get (index_table ?rows (stepY ?st) (int R - 1)) (int (k div nat ?cols)))
            (arr_get (index_table ?cols (stepX ?st) (int C - 1)) (int (k mod nat ?cols))))"
    using build_vertices(4)[OF R C k[unfolded res_def]]
    by (simp only: res_def build_rows1 build_cols1 fst_conv snd_conv)
  also have "\<dots> = fround (sampled_zs Z R C (stepY ?st) (stepX ?st) exag ! k)"
    by (simp only: getZ_sample[OF plan_steps_pos Z d m] sampled_zs_nth[OF k'])
  finally show ?thesis .
qed

lemma fround_int:
  assumes "\<bar>m\<bar> < 2 ^ 24"
  shows "fround (Fin (of_int m)) = Fin (of_int m)"
proof -
  have "\<bar>of_int m :: real\<bar> < of_int (2 ^ 24)"
    using assms by (simp only: of_int_abs[symmetric] of_int_less_iff)
  also have "\<dots> = pow2 24" using pow2_of_nat[of 24] by simp
  also have "\<dots> < pow2 (127 + 1)" by simp
  finally have "\<bar>of_int m :: real\<bar> < pow2 (127 + 1)" .
  then show ?thesis
    using round_to_exact[where p = 24 and emin = "- 126" and emax = 127 and m = m and q = 0
        and x = "of_int m"] assms by simp
qed

lemma plan_2x2: "plan_steps 2 2 999 = \<lparr>stepY = 1, stepX = 1\<rparr>"
  by (simp add: plan_steps_eq calcSteps_eq initial_step_def decimated_def MAX_VERTICES_def Let_def)

lemma elevations_2x2: "sampled_elevations [a, b, c, d] 2 2 1 1 = [a, b, c, d]"
  by (simp add: sampled_elevations_def sampled_points_def sampled_index_def decimated_def
      upt_rec numeral_2_eq_2)

lemma round64_small_ints:
  "round64 (- 50) = Fin (- 50)" "round64 (- 20) = Fin (- 20)" "round64 (- 10) = Fin (- 10)"
  "round64 (- 30) = Fin (- 30)" "round64 (- 25) = Fin (- 25)" "round64 (- 5) = Fin (- 5)"
  "round64 (- 15) = Fin (- 15)" "round64 (- 60) = Fin (- 60)" "round64 (- 35) = Fin (- 35)"
  using round64_int[of "- 50"] round64_int[of "- 20"] round64_int[of "- 10"]
    round64_int[of "- 30"] round64_int[of "- 25"] round64_int[of "- 5"]
    round64_int[of "- 15"] round64_int[of "- 60"] round64_int[of "- 35"]
  by simp_all

lemma sampled_2x2:
  "sampled_zs [- 50, - 20, - 10, - 30] 2 2 1 1 1 = [Fin (- 50), Fin (- 20), Fin (- 10), Fin (- 30)]"
  by (simp add: sampled_zs_def elevations_2x2 round64_small_ints)

lemma sampled_2x2_half:
  "sampled_zs [- 50, - 20, - 10, - 30] 2 2 1 1 (1 / 2)
   = [Fin (- 25), Fin (- 10), Fin (- 5), Fin (- 15)]"
  by (simp add: sampled_zs_def elevations_2x2 round64_small_ints)

lemma least_2x2:
  "num_least [Fin (- 50), Fin (- 20), Fin (- 10), Fin (- 30)] = Fin (- 50)"
  "num_least [Fin (- 25), Fin (- 10), Fin (- 5), Fin (- 15)] = Fin (- 25)"
  by (simp_all add: num_least_def)

lemma build_2x2_dims:
  "res_rows1 (buildSolidGeometry lats lons Z (2, 2) exag base 999) = 2"
  "res_cols1 (buildSolidGeometry lats lons Z (2, 2) exag base 999) = 2"
  by (simp_all add: build_rows1 build_cols1 plan_2x2 decimated_def)

lemma build_2x2_bottomZ:
  "res_bottomZ (buildSolidGeometry lats lons [- 50, - 20, - 10, - 30] (2, 2) 1 base 999)
   = round64 (- 50 - \<bar>base\<bar>)"
  "res_bottomZ (buildSolidGeometry lats lons [- 50, - 20, - 10, - 30] (2, 2) (1 / 2) base 999)
   = round64 (- 25 - \<bar>base\<bar>)"
proof -
  have h: "(1::nat) \<le> 2" and l: "length [- 50, - 20, - 10, - 30 :: real] = 2 * 2" by simp_all
  show "res_bottomZ (buildSolidGeometry lats lons [- 50, - 20, - 10, - 30] (2, 2) 1 base 999)
        = round64 (- 50 - \<bar>base\<bar>)"
    using build_bottomZ_eq[OF h h l, where lats = lats and lons = lons and exag = 1
        and base = base and maxDim = 999]
    by (simp add: plan_2x2 sampled_2x2 least_2x2 num_sub_def)
  show "res_bottomZ (buildSolidGeometry lats lons [- 50, - 20, - 10, - 30] (2, 2) (1 / 2) base 999)
        = round64 (- 25 - \<bar>base\<bar>)"
    using build_bottomZ_eq[OF h h l, where lats = lats and lons = lons and exag = "1 / 2"
        and base = base and maxDim = 999]
    by (simp add: plan_2x2 sampled_2x2_half least_2x2 num_sub_def)
qed

lemma round64_absorbed: "round64 (- 50 - 1 / 2 ^ 60) = Fin (- 50)"
  unfolding round64_def by (simp add: round_to_eval[where e = 5] rne_def overflow_def)

lemma round64_kept: "round64 (- 50 - 1 / 2 ^ 20) = Fin (- 50 - 1 / 2 ^ 20)"
  by (rule round64_exact[where m = "- 52428801" and q = "- 20"]) simp_all

lemma fround_dropped: "fround (Fin (- 50 - 1 / 2 ^ 20)) = Fin (- 50)"
  by (simp add: round_to_eval[where e = 5] rne_def overflow_def)

lemma ulp64_50: "ulp64 (- 50) = 1 / 2 ^ 47"
  by (simp add: ulp64_def binade_eq[where e = 5])

lemma sampled_zs_rounded:
  "z \<in> set (sampled_zs Z R C sy sx exag) \<Longrightarrow> \<exists>x. z = round64 x"
  by (auto simp: sampled_zs_def)

lemma sub_not_above:
  assumes "m = round64 x" and "0 \<le> b"
  shows "\<not> num_lt m (num_sub m (Fin b))"
proof (cases m)
  case (Fin y)
  then have "round64 y = Fin y" using assms(1) round64_idem[of x y] by simp
  moreover have "\<not> num_lt (round64 y) (round64 (y + - b))"
    by (rule round64_mono) (use assms(2) in simp)
  ultimately show ?thesis using Fin by (simp add: num_sub_def)
qed (simp_all add: num_sub_def)

lemma sub_zero:
  assumes "m = round64 x"
  shows "num_sub m (Fin 0) = m"
proof (cases m)
  case (Fin y)
  then have "round64 y = Fin y" using assms(1) round64_idem[of x y] by simp
  then show ?thesis using Fin by (simp add: num_sub_def)
qed (simp_all add: num_sub_def)

lemma sub_below:
  assumes "round64 x = Fin m" and "ulp64 m \<le> b"
  shows "num_lt (num_sub (Fin m) (Fin b)) (Fin m)"
  using round64_pred[OF assms] by (simp add: num_sub_def)

lemma num_less_le_trans:
  "num_lt a b \<Longrightarrow> \<not> num_lt c b \<Longrightarrow> c \<noteq> NaN \<Longrightarrow> num_lt a c"
  by (cases a; cases b; cases c) simp_all

lemma least_below_raw:
  assumes xs: "xs \<noteq> []" and e: "1 \<le> exag" and neg: "Min (set xs) \<le> 0"
    and r: "round64 (Min (set xs)) = Fin (Min (set xs))"
    and l: "is_least m (map (\<lambda>z. num_mul (Fin z) (Fin exag)) xs)"
  shows "\<not> num_lt (Fin (Min (set xs))) m"
proof -
  let ?r = "Min (set xs)"
  have "?r \<in> set xs" using xs by simp
  then have a: "\<not> num_lt (round64 (?r * exag)) m" using l by (simp add: is_least_def)
  have "?r * exag \<le> ?r * 1" using e neg by (intro mult_left_mono_neg) simp_all
  then have "\<not> num_lt (round64 ?r) (round64 (?r * exag))" by (intro round64_mono) simp
  then have b: "\<not> num_lt (Fin ?r) (round64 (?r * exag))" by (simp add: r)
  show ?thesis by (rule num_le_trans[OF a b]) simp
qed


text \<open>
  C10. For a grid with at least one row and one column, with \<open>rows1\<close> and \<open>cols1\<close>
  the down-sampled counts, the builder emits \<open>2 * rows1 * cols1\<close> vertices, position and
  colour buffers of the same length \<open>3 * (2 * rows1 * cols1)\<close>, and
  \<open>3 * (4 * (rows1 - 1) * (cols1 - 1) + 4 * (rows1 - 1) + 4 * (cols1 - 1))\<close> triangle
  indices, each of them a valid vertex number.
\<close>

theorem buildSolidGeometry_counts:
  fixes lats lons Z :: "real list" and R C :: nat and exag base maxDim :: real
  assumes "1 \<le> R" and "1 \<le> C"
  defines "res \<equiv> buildSolidGeometry lats lons Z (R, C) exag base maxDim"
  shows "res_rows1 res = decimated (int R) (stepY (plan_steps (int R) (int C) maxDim))
       \<and> res_cols1 res = decimated (int C) (stepX (plan_steps (int R) (int C) maxDim))
       \<and> int (length (geom_position res)) = 3 * (2 * res_rows1 res * res_cols1 res)
       \<and> length (geom_color res) = length (geom_position res)
       \<and> int (length (geom_index res))
           = 3 * (4 * (res_rows1 res - 1) * (res_cols1 res - 1)
                  + 4 * (res_rows1 res - 1) + 4 * (res_cols1 res - 1))
       \<and> (\<forall>v \<in> set (geom_index res). 0 \<le> v \<and> v < 2 * res_rows1 res * res_cols1 res)"
proof -
  have pos: "1 \<le> res_rows1 res" "1 \<le> res_cols1 res"
    unfolding res_def using assms(1,2) by (simp_all add: build_dims_pos)
  have nn: "0 \<le> res_rows1 res * res_cols1 res * 2 * 3" using pos by simp
  have p: "int (length (geom_position res)) = 3 * (2 * res_rows1 res * res_cols1 res)"
    unfolding res_def build_position_length using nn[unfolded res_def] by (simp add: algebra_simps)
  have c: "length (geom_color res) = length (geom_position res)"
    unfolding res_def by (simp only: build_position_length build_color_length)
  have i: "int (length (geom_index res))
           = 3 * (4 * (res_rows1 res - 1) * (res_cols1 res - 1)
                  + 4 * (res_rows1 res - 1) + 4 * (res_cols1 res - 1))"
    using all_faces_length_int[OF pos] unfolding res_def by (simp only: build_index)
  have "valid_index (res_rows1 res) (res_cols1 res) (geom_index res)"
    using all_faces_valid[OF pos] unfolding res_def by (simp only: build_index)
  then have v: "\<forall>v \<in> set (geom_index res). 0 \<le> v \<and> v < 2 * res_rows1 res * res_cols1 res"
    by (simp add: valid_index_def mult.assoc)
  show ?thesis using p c i v by (simp add: res_def build_rows1 build_cols1)
qed

theorem buildSolidGeometry_counts_witness:
  "(1::nat) \<le> 2
   \<and> int (length (geom_position (buildSolidGeometry [0, 1 / 10] [0, 1 / 10] [-50, -20, -10, -30] (2, 2) 1 10 999))) = 24
   \<and> length (geom_color (buildSolidGeometry [0, 1 / 10] [0, 1 / 10] [-50, -20, -10, -30] (2, 2) 1 10 999)) = 24
   \<and> int (length (geom_index (buildSolidGeometry [0, 1 / 10] [0, 1 / 10] [-50, -20, -10, -30] (2, 2) 1 10 999))) = 36
   \<and> list_all (\<lambda>v. 0 \<le> v \<and> v < 8)
        (geom_index (buildSolidGeometry [0, 1 / 10] [0, 1 / 10] [-50, -20, -10, -30] (2, 2) 1 10 999))"
proof -
  have h: "(1::nat) \<le> 2" by simp
  show ?thesis
    using buildSolidGeometry_counts [OF h h, where lats = "[0, 1 / 10]" and lons = "[0, 1 / 10]"
        and Z = "[-50, -20, -10, -30]" and exag = 1 and base = 10 and maxDim = 999]
    by (simp add: build_2x2_dims list_all_iff)
qed


text \<open>
  C5. The claim is that every bottom vertex carries \<open>z = bottomZ\<close>. The position buffer
  is a \<open>Float32Array\<close>, so what a bottom vertex carries is \<open>bottomZ\<close> rounded to single
  precision: on the 2 by 2 grid with elevations -50, -20, -10, -30, exaggeration 1 and
  base thickness \<open>1 / 2 ^ 20\<close> the builder returns \<open>bottomZ = -50 - 1 / 2 ^ 20\<close> and the
  bottom vertices carry \<open>z = -50\<close>.
\<close>

theorem bottom_vertex_z_rounded:
  "res_bottomZ (buildSolidGeometry [0, 1 / 10] [0, 1 / 10] [- 50, - 20, - 10, - 30] (2, 2) 1 (1 / 2 ^ 20) 999)
     = Fin (- 50 - 1 / 2 ^ 20)
   \<and> geom_position (buildSolidGeometry [0, 1 / 10] [0, 1 / 10] [- 50, - 20, - 10, - 30] (2, 2) 1 (1 / 2 ^ 20) 999)
       ! (3 * (4 + 0) + 2) = Fin (- 50)
   \<and> geom_position (buildSolidGeometry [0, 1 / 10] [0, 1 / 10] [- 50, - 20, - 10, - 30] (2, 2) 1 (1 / 2 ^ 20) 999)
       ! (3 * (4 + 0) + 2)
     \<noteq> res_bottomZ (buildSolidGeometry [0, 1 / 10] [0, 1 / 10] [- 50, - 20, - 10, - 30] (2, 2) 1 (1 / 2 ^ 20) 999)"
proof -
  let ?B = "buildSolidGeometry [0, 1 / 10] [0, 1 / 10] [- 50, - 20, - 10, - 30] (2, 2) 1 (1 / 2 ^ 20) 999"
  have h: "(1::nat) \<le> 2" by simp
  have b: "res_bottomZ ?B = Fin (- 50 - 1 / 2 ^ 20)"
    using build_2x2_bottomZ(1)[where base = "1 / 2 ^ 20"] round64_kept by simp
  have T: "nat (res_rows1 ?B * res_cols1 ?B) = 4" by (simp add: build_2x2_dims)
  have k: "0 < nat (res_rows1 ?B * res_cols1 ?B)" by (simp only: T)
  have "geom_position ?B ! (3 * (nat (res_rows1 ?B * res_cols1 ?B) + 0) + 2) = fround (res_bottomZ ?B)"
    by (rule build_vertices(3)[OF h h k])
  then have p: "geom_position ?B ! (3 * (4 + 0) + 2) = Fin (- 50)"
    using fround_dropped by (simp only: T b)
  show ?thesis using b p by simp
qed

text \<open>
  C5, as amended. For a well-formed grid, \<open>bottomZ\<close> is the least exaggerated elevation
  among the sampled points minus \<open>|base|\<close>, in double precision; the top vertex \<open>k\<close> (in
  row-major order) carries the exaggerated elevation of the sampled point \<open>k\<close> rounded
  to single precision, and the bottom vertex \<open>topVerts + k\<close> has the same \<open>x\<close> and \<open>y\<close>
  as the top vertex \<open>k\<close> and \<open>z\<close> equal to \<open>bottomZ\<close> rounded to single precision.
\<close>

theorem buildSolidGeometry_bottom_plane:
  fixes lats lons Z :: "real list" and R C :: nat and exag base maxDim :: real
  assumes "1 \<le> R" and "1 \<le> C" and "length Z = R * C"
  defines "res \<equiv> buildSolidGeometry lats lons Z (R, C) exag base maxDim"
  defines "zs \<equiv> sampled_zs Z R C (stepY (plan_steps (int R) (int C) maxDim))
                   (stepX (plan_steps (int R) (int C) maxDim)) exag"
  defines "topVerts \<equiv> nat (res_rows1 res * res_cols1 res)"
  shows "res_bottomZ res = num_sub (num_least zs) (Fin \<bar>base\<bar>)
       \<and> is_least (num_least zs) zs
       \<and> length zs = topVerts
       \<and> length (geom_position res) = 3 * (2 * topVerts)
       \<and> (\<forall>k < topVerts.
             geom_position res ! (3 * k + 2) = fround (zs ! k)
           \<and> geom_position res ! (3 * (topVerts + k)) = geom_position res ! (3 * k)
           \<and> geom_position res ! (3 * (topVerts + k) + 1) = geom_position res ! (3 * k + 1)
           \<and> geom_position res ! (3 * (topVerts + k) + 2) = fround (res_bottomZ res))"
proof -
  have b: "res_bottomZ res = num_sub (num_least zs) (Fin \<bar>base\<bar>)"
    unfolding res_def zs_def using assms(1-3) by (rule build_bottomZ_eq)
  have m: "is_least (num_least zs) zs"
    unfolding zs_def using assms(1,2) by (rule build_least)
  have pos: "1 \<le> res_rows1 res" "1 \<le> res_cols1 res"
    unfolding res_def using assms(1,2) by (simp_all add: build_dims_pos)
  have l: "length zs = topVerts"
    unfolding zs_def topVerts_def res_def using pos[unfolded res_def]
    by (simp add: sampled_zs_length build_rows1 build_cols1 nat_mult_distrib)
  have v: "\<forall>k < topVerts.
             geom_position res ! (3 * k + 2) = fround (zs ! k)
           \<and> geom_position res ! (3 * (topVerts + k)) = geom_position res ! (3 * k)
           \<and> geom_position res ! (3 * (topVerts + k) + 1) = geom_position res ! (3 * k + 1)
           \<and> geom_position res ! (3 * (topVerts + k) + 2) = fround (res_bottomZ res)"
    unfolding topVerts_def res_def zs_def
    using build_vertices(1,2,3)[OF assms(1,2), where lats = lats and lons = lons and Z = Z
        and exag = exag and base = base and maxDim = maxDim]
      build_top_z[OF assms(1-3), where lats = lats and lons = lons
        and exag = exag and base = base and maxDim = maxDim]
    by blast
  have "0 \<le> res_rows1 res * res_cols1 res" using pos by simp
  then have n: "length (geom_position res) = 3 * (2 * topVerts)"
    unfolding topVerts_def res_def build_position_length by (simp add: nat_mult_distrib)
  show ?thesis using b m l n v by blast
qed

theorem buildSolidGeometry_bottom_plane_witness:
  "(1::nat) \<le> 2 \<and> length [- 50, - 20, - 10, - 30 :: real] = 2 * 2
   \<and> res_bottomZ (buildSolidGeometry [0, 1 / 10] [0, 1 / 10] [- 50, - 20, - 10, - 30] (2, 2) 1 10 999) = Fin (- 60)
   \<and> geom_position (buildSolidGeometry [0, 1 / 10] [0, 1 / 10] [- 50, - 20, - 10, - 30] (2, 2) 1 10 999) ! (3 * 3 + 2)
        = Fin (- 30)
   \<and> geom_position (buildSolidGeometry [0, 1 / 10] [0, 1 / 10] [- 50, - 20, - 10, - 30] (2, 2) 1 10 999) ! (3 * (4 + 3))
        = geom_position (buildSolidGeometry [0, 1 / 10] [0, 1 / 10] [- 50, - 20, - 10, - 30] (2, 2) 1 10 999) ! (3 * 3)
   \<and> geom_position (buildSolidGeometry [0, 1 / 10] [0, 1 / 10] [- 50, - 20, - 10, - 30] (2, 2) 1 10 999) ! (3 * (4 + 3) + 1)
        = geom_position (buildSolidGeometry [0, 1 / 10] [0, 1 / 10] [- 50, - 20, - 10, - 30] (2, 2) 1 10 999) ! (3 * 3 + 1)
   \<and> geom_position (buildSolidGeometry [0, 1 / 10] [0, 1 / 10] [- 50, - 20, - 10, - 30] (2, 2) 1 10 999) ! (3 * (4 + 3) + 2)
        = Fin (- 60)"
proof -
  let ?B = "buildSolidGeometry [0, 1 / 10] [0, 1 / 10] [- 50, - 20, - 10, - 30] (2, 2) 1 10 999"
  have h: "(1::nat) \<le> 2" and l: "length [- 50, - 20, - 10, - 30 :: real] = 2 * 2" by simp_all
  note t = buildSolidGeometry_bottom_plane [OF h h l, where lats = "[0, 1 / 10]"
        and lons = "[0, 1 / 10]" and exag = 1 and base = 10 and maxDim = 999]
  have T: "nat (res_rows1 ?B * res_cols1 ?B) = 4" by (simp add: build_2x2_dims)
  have f: "fround (Fin (- 60)) = Fin (- 60)" "fround (Fin (- 30)) = Fin (- 30)"
    using fround_int[of "- 60"] fround_int[of "- 30"] by simp_all
  have "res_bottomZ ?B = num_sub (num_least (sampled_zs [- 50, - 20, - 10, - 30] 2 2
            (stepY (plan_steps (int 2) (int 2) 999)) (stepX (plan_steps (int 2) (int 2) 999)) 1))
          (Fin \<bar>10\<bar>)"
    using t by (elim conjE)
  then have b: "res_bottomZ ?B = Fin (- 60)"
    by (simp add: plan_2x2 sampled_2x2 least_2x2 num_sub_def round64_small_ints)
  have "\<forall>k < nat (res_rows1 ?B * res_cols1 ?B).
           geom_position ?B ! (3 * k + 2)
             = fround (sampled_zs [- 50, - 20, - 10, - 30] 2 2 (stepY (plan_steps (int 2) (int 2) 999))
                         (stepX (plan_steps (int 2) (int 2) 999)) 1 ! k)
           \<and> geom_position ?B ! (3 * (nat (res_rows1 ?B * res_cols1 ?B) + k)) = geom_position ?B ! (3 * k)
           \<and> geom_position ?B ! (3 * (nat (res_rows1 ?B * res_cols1 ?B) + k) + 1)
               = geom_position ?B ! (3 * k + 1)
           \<and> geom_position ?B ! (3 * (nat (res_rows1 ?B * res_cols1 ?B) + k) + 2) = fround (res_bottomZ ?B)"
    using t by (elim conjE)
  then have "geom_position ?B ! (3 * 3 + 2)
             = fround (sampled_zs [- 50, - 20, - 10, - 30] 2 2 (stepY (plan_steps (int 2) (int 2) 999))
                         (stepX (plan_steps (int 2) (int 2) 999)) 1 ! 3)
           \<and> geom_position ?B ! (3 * (4 + 3)) = geom_position ?B ! (3 * 3)
           \<and> geom_position ?B ! (3 * (4 + 3) + 1) = geom_position ?B ! (3 * 3 + 1)
           \<and> geom_position ?B ! (3 * (4 + 3) + 2) = fround (res_bottomZ ?B)"
    unfolding T by (elim allE[where x = 3]) simp
  then have "geom_position ?B ! (3 * 3 + 2) = Fin (- 30)
           \<and> geom_position ?B ! (3 * (4 + 3)) = geom_position ?B ! (3 * 3)
           \<and> geom_position ?B ! (3 * (4 + 3) + 1) = geom_position ?B ! (3 * 3 + 1)
           \<and> geom_position ?B ! (3 * (4 + 3) + 2) = Fin (- 60)"
    unfolding b f(1) by (simp add: plan_2x2 sampled_2x2 f(2) del: fround.simps)
  then show ?thesis using b by simp
qed

text \<open>
  C6. The claim is that \<open>bottomZ\<close> is strictly below the least sampled elevation for
  every non-negative base thickness. On the 2 by 2 grid with elevations -50, -20, -10,
  -30, whose least elevation is -50, it is not so in three ways. With exaggeration 1 and
  the base thickness 0, which the input field allows, \<open>bottomZ\<close> is -50 itself. With
  exaggeration 1 and the base thickness \<open>1 / 2 ^ 60\<close>, the subtraction in double precision
  returns -50 again. With the exaggeration 1/2, one of the preset values, and the base
  thickness 10, \<open>bottomZ\<close> is \<open>-25 - 10 = -35\<close>, above -50: the builder subtracts the base
  from the least exaggerated elevation.
\<close>

theorem bottomZ_not_below_minimum:
  "\<not> num_lt (res_bottomZ (buildSolidGeometry [0, 1 / 10] [0, 1 / 10] [- 50, - 20, - 10, - 30] (2, 2) 1 0 999))
       (Fin (Min (set [- 50, - 20, - 10, - 30])))
   \<and> \<not> num_lt (res_bottomZ (buildSolidGeometry [0, 1 / 10] [0, 1 / 10] [- 50, - 20, - 10, - 30] (2, 2) 1 (1 / 2 ^ 60) 999))
       (Fin (Min (set [- 50, - 20, - 10, - 30])))
   \<and> \<not> num_lt (res_bottomZ (buildSolidGeometry [0, 1 / 10] [0, 1 / 10] [- 50, - 20, - 10, - 30] (2, 2) (1 / 2) 10 999))
       (Fin (Min (set [- 50, - 20, - 10, - 30])))"
proof -
  have a: "res_bottomZ (buildSolidGeometry [0, 1 / 10] [0, 1 / 10] [- 50, - 20, - 10, - 30] (2, 2) 1 0 999)
           = Fin (- 50)"
    using build_2x2_bottomZ(1)[where base = 0] by (simp add: round64_small_ints)
  have b: "res_bottomZ (buildSolidGeometry [0, 1 / 10] [0, 1 / 10] [- 50, - 20, - 10, - 30] (2, 2) 1 (1 / 2 ^ 60) 999)
           = Fin (- 50)"
    using build_2x2_bottomZ(1)[where base = "1 / 2 ^ 60"] round64_absorbed by simp
  have c: "res_bottomZ (buildSolidGeometry [0, 1 / 10] [0, 1 / 10] [- 50, - 20, - 10, - 30] (2, 2) (1 / 2) 10 999)
           = Fin (- 35)"
    using build_2x2_bottomZ(2)[where base = 10] by (simp add: round64_small_ints)
  show ?thesis unfolding a b c by simp
qed

text \<open>
  C6, as amended. For a well-formed grid, with or without negative elevations,
  \<open>bottomZ\<close> is never above the least exaggerated elevation among the sampled points; it
  is that elevation when the base thickness is zero; and it is strictly below it when
  that elevation is finite and the base thickness is at least one unit in the last
  place of it. When moreover the exaggeration is at least 1 and the least sampled
  elevation is a double precision number that is not positive, \<open>bottomZ\<close> is strictly
  below the least sampled elevation.
\<close>

theorem bottomZ_below_minimum:
  fixes lats lons Z :: "real list" and R C :: nat and exag base maxDim :: real
  assumes "1 \<le> R" and "1 \<le> C" and "length Z = R * C"
  defines "res \<equiv> buildSolidGeometry lats lons Z (R, C) exag base maxDim"
  defines "zs \<equiv> sampled_zs Z R C (stepY (plan_steps (int R) (int C) maxDim))
                   (stepX (plan_steps (int R) (int C) maxDim)) exag"
  defines "xs \<equiv> sampled_elevations Z R C (stepY (plan_steps (int R) (int C) maxDim))
                   (stepX (plan_steps (int R) (int C) maxDim))"
  shows "\<not> num_lt (num_least zs) (res_bottomZ res)
       \<and> (base = 0 \<longrightarrow> res_bottomZ res = num_least zs)
       \<and> (\<forall>m. num_least zs = Fin m \<and> ulp64 m \<le> \<bar>base\<bar>
              \<longrightarrow> num_lt (res_bottomZ res) (Fin m))
       \<and> (1 \<le> exag \<and> Min (set xs) \<le> 0 \<and> round64 (Min (set xs)) = Fin (Min (set xs))
            \<and> (\<forall>m. num_least zs = Fin m \<longrightarrow> ulp64 m \<le> \<bar>base\<bar>)
          \<longrightarrow> num_lt (res_bottomZ res) (Fin (Min (set xs))))"
proof -
  have b: "res_bottomZ res = num_sub (num_least zs) (Fin \<bar>base\<bar>)"
    unfolding res_def zs_def using assms(1-3) by (rule build_bottomZ_eq)
  have l: "is_least (num_least zs) zs"
    unfolding zs_def using assms(1,2) by (rule build_least)
  then have "num_least zs \<in> set zs" by (simp add: is_least_def)
  then obtain x where x: "num_least zs = round64 x"
    unfolding zs_def using sampled_zs_rounded by blast
  have zx: "zs = map (\<lambda>z. num_mul (Fin z) (Fin exag)) xs"
    by (simp only: zs_def xs_def sampled_zs_def)
  have "zs \<noteq> []" using l by (auto simp: is_least_def)
  then have ne: "xs \<noteq> []" by (simp add: zx)
  have c1: "\<not> num_lt (num_least zs) (res_bottomZ res)"
    unfolding b by (rule sub_not_above[OF x]) simp
  have c2: "base = 0 \<longrightarrow> res_bottomZ res = num_least zs"
    unfolding b using sub_zero[OF x] by simp
  have c3: "num_lt (res_bottomZ res) (Fin m)" if "num_least zs = Fin m" "ulp64 m \<le> \<bar>base\<bar>" for m
  proof -
    have "round64 x = Fin m" using x that(1) by simp
    then show ?thesis unfolding b that(1) by (rule sub_below) (rule that(2))
  qed
  have c4: "num_lt (res_bottomZ res) (Fin (Min (set xs)))"
    if e: "1 \<le> exag" and n: "Min (set xs) \<le> 0"
      and r: "round64 (Min (set xs)) = Fin (Min (set xs))"
      and u: "\<forall>m. num_least zs = Fin m \<longrightarrow> ulp64 m \<le> \<bar>base\<bar>"
  proof -
    have le: "\<not> num_lt (Fin (Min (set xs))) (num_least zs)"
      by (rule least_below_raw[OF ne e n r]) (use l zx in simp)
    show ?thesis
    proof (cases "num_least zs")
      case (Fin m)
      then have "num_lt (res_bottomZ res) (Fin m)" using c3 u by simp
      then show ?thesis by (rule num_less_le_trans) (use le Fin in simp_all)
    next
      case NInf
      then show ?thesis by (simp add: b num_sub_def)
    next
      case PInf
      then show ?thesis using le by simp
    next
      case NaN
      then show ?thesis using x by simp
    qed
  qed
  show ?thesis using c1 c2 c3 c4 by blast
qed

theorem bottomZ_below_minimum_witness:
  "(1::nat) \<le> 2 \<and> length [- 50, - 20, - 10, - 30 :: real] = 2 * 2
   \<and> (1::real) \<le> 1 \<and> Min (set [- 50, - 20, - 10, - 30 :: real]) \<le> 0
   \<and> round64 (Min (set [- 50, - 20, - 10, - 30])) = Fin (Min (set [- 50, - 20, - 10, - 30]))
   \<and> ulp64 (- 50) \<le> \<bar>10\<bar>
   \<and> num_lt (res_bottomZ (buildSolidGeometry [0, 1 / 10] [0, 1 / 10] [- 50, - 20, - 10, - 30] (2, 2) 1 10 999))
        (Fin (Min (set [- 50, - 20, - 10, - 30])))"
proof -
  have h: "(1::nat) \<le> 2" and l: "length [- 50, - 20, - 10, - 30 :: real] = 2 * 2" by simp_all
  show ?thesis
    using bottomZ_below_minimum [OF h h l, where lats = "[0, 1 / 10]"
        and lons = "[0, 1 / 10]" and exag = 1 and base = 10 and maxDim = 999]
    by (simp add: plan_2x2 sampled_2x2 elevations_2x2 least_2x2 round64_small_ints ulp64_50)
qed

section \<open>Properties of the export scaling\<close>

lemma store_at_new: "store_at (length h) i v (h @ [A]) = h @ [A[i := fround v]]"
  by (simp add: store_at_def Float32_set_def del: fround.simps)

lemma load_old: "pos < length h \<Longrightarrow> load (h @ [A]) pos i = buf_get (h ! pos) i"
  by (simp add: load_def nth_append)

lemma scale_item_new:
  assumes "pos < length h"
  shows "scale_item pos (length h) scale i (h @ [A])
         = h @ [A[i * 3 + 0 := fround (num_mul (buf_get (h ! pos) (i * 3 + 0)) (Fin scale)),
                  i * 3 + 1 := fround (num_mul (buf_get (h ! pos) (i * 3 + 1)) (Fin scale)),
                  i * 3 + 2 := fround (num_mul (buf_get (h ! pos) (i * 3 + 2)) (Fin scale))]]"
  unfolding scale_item_def Let_def
  by (simp only: store_at_new load_old[OF assms])

lemma scaled_prefix_step:
  assumes n: "3 * n + 3 \<le> length P" and c: "n < count"
  shows "(map f (take (3 * n) P) @ replicate (3 * count - 3 * n) z)
           [n * 3 + 0 := f (buf_get P (n * 3 + 0)),
            n * 3 + 1 := f (buf_get P (n * 3 + 1)),
            n * 3 + 2 := f (buf_get P (n * 3 + 2))]
         = map f (take (3 * Suc n) P) @ replicate (3 * count - 3 * Suc n) z"
proof (rule nth_equalityI)
  show "length ((map f (take (3 * n) P) @ replicate (3 * count - 3 * n) z)
           [n * 3 + 0 := f (buf_get P (n * 3 + 0)),
            n * 3 + 1 := f (buf_get P (n * 3 + 1)),
            n * 3 + 2 := f (buf_get P (n * 3 + 2))])
        = length (map f (take (3 * Suc n) P) @ replicate (3 * count - 3 * Suc n) z)"
    using n c by simp
next
  fix i
  assume "i < length ((map f (take (3 * n) P) @ replicate (3 * count - 3 * n) z)
           [n * 3 + 0 := f (buf_get P (n * 3 + 0)),
            n * 3 + 1 := f (buf_get P (n * 3 + 1)),
            n * 3 + 2 := f (buf_get P (n * 3 + 2))])"
  then have i: "i < 3 * count" using n c by simp
  consider "i < 3 * n" | "i = 3 * n" | "i = 3 * n + 1" | "i = 3 * n + 2" | "3 * n + 3 \<le> i"
    by linarith
  then show "(map f (take (3 * n) P) @ replicate (3 * count - 3 * n) z)
           [n * 3 + 0 := f (buf_get P (n * 3 + 0)),
            n * 3 + 1 := f (buf_get P (n * 3 + 1)),
            n * 3 + 2 := f (buf_get P (n * 3 + 2))] ! i
        = (map f (take (3 * Suc n) P) @ replicate (3 * count - 3 * Suc n) z) ! i"
    using n c i by cases (simp_all add: nth_append nth_list_update buf_get_def mult.commute)
qed

lemma scale_fold:
  assumes pos: "pos < length h" and len: "3 * count \<le> length (h ! pos)" and n: "n \<le> count"
  shows "fold (scale_item pos (length h) scale) [0..<n] (h @ [replicate (3 * count) (Fin 0)])
         = h @ [map (\<lambda>x. fround (num_mul x (Fin scale))) (take (3 * n) (h ! pos))
                 @ replicate (3 * count - 3 * n) (Fin 0)]"
  using n
proof (induction n)
  case 0
  then show ?case by simp
next
  case (Suc n)
  then have n: "n < count" by simp
  then have l: "3 * n + 3 \<le> length (h ! pos)" using len by simp
  have "fold (scale_item pos (length h) scale) [0..<Suc n] (h @ [replicate (3 * count) (Fin 0)])
        = scale_item pos (length h) scale n
            (h @ [map (\<lambda>x. fround (num_mul x (Fin scale))) (take (3 * n) (h ! pos))
                 @ replicate (3 * count - 3 * n) (Fin 0)])"
    using Suc.IH n by simp
  also have "\<dots> = h @ [map (\<lambda>x. fround (num_mul x (Fin scale))) (take (3 * Suc n) (h ! pos))
                 @ replicate (3 * count - 3 * Suc n) (Fin 0)]"
    by (simp only: scale_item_new[OF pos]
        scaled_prefix_step[OF l n, where f = "\<lambda>x. fround (num_mul x (Fin scale))"])
  finally show ?case .
qed

lemma scalePositions_eq:
  assumes pos: "position g < length h" and m: "length (h ! position g) mod 3 = 0"
  shows "scalePositionsFromGeometry h g scale
         = (length h, h @ [map (\<lambda>x. fround (num_mul x (Fin scale))) (h ! position g)])"
proof -
  let ?count = "length (h ! position g) div 3"
  have l: "3 * ?count = length (h ! position g)" using m by (simp add: mod_eq_0_iff_dvd)
  have "fold (scale_item (position g) (length h) scale) [0..<?count]
          (h @ [replicate (3 * ?count) (Fin 0)])
        = h @ [map (\<lambda>x. fround (num_mul x (Fin scale))) (take (3 * ?count) (h ! position g))
                 @ replicate (3 * ?count - 3 * ?count) (Fin 0)]"
    by (rule scale_fold[OF pos _ order_refl]) (simp add: l)
  then show ?thesis
    using pos by (simp add: scalePositionsFromGeometry_def attr_count_def new_Float32Array_def
        Let_def l mult.commute del: fround.simps)
qed

lemma scaled_values:
  "fround (num_mul (Fin 1) (Fin 1000)) = Fin 1000"
  "fround (num_mul (Fin 2) (Fin 1000)) = Fin 2000"
  "fround (num_mul (Fin 3) (Fin 1000)) = Fin 3000"
  using round64_int[of 1000] round64_int[of 2000] round64_int[of 3000]
    fround_int[of 1000] fround_int[of 2000] fround_int[of 3000]
  by simp_all

lemma scaled_product: "num_mul (Fin (2849791 / 256)) (Fin 1000) = Fin (2849791000 / 256)"
  using round64_frac[of 2849791000 8] by simp

lemma scaled_stored: "fround (Fin (2849791000 / 256)) = Fin 11131996"
  by (simp add: round_to_eval[where e = 23] rne_def overflow_def)

text \<open>
  C9. The claim is that every component of the new array is the factor times the input
  component. The new array is a \<open>Float32Array\<close>, so each product is rounded to single
  precision when it is stored: for the position \<open>(11131.99609375, 0, 0)\<close>, whose
  components are single precision numbers, and the factor 1000 the first component of
  the result is 11131996, not 11131996.09375.
\<close>

theorem scalePositions_product_rounded:
  "snd (scalePositionsFromGeometry
        [[Fin (2849791 / 256), Fin 0, Fin 0], [Fin 0, Fin 0, Fin 0], [Fin 0, Fin 1, Fin 2]]
        \<lparr>position = 0, color = 1, index = 2\<rparr> 1000) ! 3 ! 0 = Fin 11131996
   \<and> num_mul (Fin (2849791 / 256)) (Fin 1000) = Fin (1000 * (2849791 / 256))
   \<and> snd (scalePositionsFromGeometry
        [[Fin (2849791 / 256), Fin 0, Fin 0], [Fin 0, Fin 0, Fin 0], [Fin 0, Fin 1, Fin 2]]
        \<lparr>position = 0, color = 1, index = 2\<rparr> 1000) ! 3 ! 0 \<noteq> Fin (1000 * (2849791 / 256))"
proof -
  let ?h = "[[Fin (2849791 / 256), Fin 0, Fin 0], [Fin 0, Fin 0, Fin 0], [Fin 0, Fin 1, Fin 2]]"
  let ?g = "\<lparr>position = 0, color = 1, index = 2\<rparr>"
  have p: "position ?g < length ?h" and m: "length (?h ! position ?g) mod 3 = 0" by simp_all
  have "snd (scalePositionsFromGeometry ?h ?g 1000) ! 3 ! 0
        = fround (num_mul (Fin (2849791 / 256)) (Fin 1000))"
    using scalePositions_eq[OF p m, of 1000] by (simp del: fround.simps num_mul.simps)
  then have a: "snd (scalePositionsFromGeometry ?h ?g 1000) ! 3 ! 0 = Fin 11131996"
    by (simp only: scaled_product scaled_stored)
  have b: "num_mul (Fin (2849791 / 256)) (Fin 1000) = Fin (1000 * (2849791 / 256))"
    by (simp only: scaled_product) simp
  show ?thesis unfolding a using b by simp
qed

text \<open>
  C9, as amended. For a geometry whose position array is in the store and holds whole
  items, \<open>scalePositionsFromGeometry\<close> returns the address of a new array, of the same
  length as the position array, whose components are the position components times the
  factor, the product taken in double precision and rounded to single precision; every
  array that was in the store before, the position, colour and index arrays of the
  geometry among them, is unchanged.
\<close>

theorem scalePositions_scales_and_preserves:
  assumes "position g < length h" and "length (h ! position g) mod 3 = 0"
  shows "fst (scalePositionsFromGeometry h g f) = length h
       \<and> length (snd (scalePositionsFromGeometry h g f)) = length h + 1
       \<and> snd (scalePositionsFromGeometry h g f) ! fst (scalePositionsFromGeometry h g f)
           = map (\<lambda>x. fround (num_mul x (Fin f))) (h ! position g)
       \<and> length (snd (scalePositionsFromGeometry h g f) ! fst (scalePositionsFromGeometry h g f))
           = length (h ! position g)
       \<and> (\<forall>a < length h. snd (scalePositionsFromGeometry h g f) ! a = h ! a)"
  by (simp add: scalePositions_eq[OF assms] nth_append del: fround.simps)

theorem scalePositions_scales_and_preserves_witness:
  "(0::nat) < 3 \<and> length [Fin 1, Fin 2, Fin 3] mod 3 = 0
   \<and> fst (scalePositionsFromGeometry
        [[Fin 1, Fin 2, Fin 3], [Fin 0, Fin 0, Fin 0], [Fin 0, Fin 1, Fin 2]]
        \<lparr>position = 0, color = 1, index = 2\<rparr> 1000) = 3
   \<and> snd (scalePositionsFromGeometry
        [[Fin 1, Fin 2, Fin 3], [Fin 0, Fin 0, Fin 0], [Fin 0, Fin 1, Fin 2]]
        \<lparr>position = 0, color = 1, index = 2\<rparr> 1000) ! 3 = [Fin 1000, Fin 2000, Fin 3000]
   \<and> snd (scalePositionsFromGeometry
        [[Fin 1, Fin 2, Fin 3], [Fin 0, Fin 0, Fin 0], [Fin 0, Fin 1, Fin 2]]
        \<lparr>position = 0, color = 1, index = 2\<rparr> 1000) ! 0 = [Fin 1, Fin 2, Fin 3]
   \<and> snd (scalePositionsFromGeometry
        [[Fin 1, Fin 2, Fin 3], [Fin 0, Fin 0, Fin 0], [Fin 0, Fin 1, Fin 2]]
        \<lparr>position = 0, color = 1, index = 2\<rparr> 1000) ! 1 = [Fin 0, Fin 0, Fin 0]
   \<and> snd (scalePositionsFromGeometry
        [[Fin 1, Fin 2, Fin 3], [Fin 0, Fin 0, Fin 0], [Fin 0, Fin 1, Fin 2]]
        \<lparr>position = 0, color = 1, index = 2\<rparr> 1000) ! 2 = [Fin 0, Fin 1, Fin 2]"
proof -
  let ?h = "[[Fin 1, Fin 2, Fin 3], [Fin 0, Fin 0, Fin 0], [Fin 0, Fin 1, Fin 2]]"
  let ?g = "\<lparr>position = 0, color = 1, index = 2\<rparr>"
  have p: "position ?g < length ?h" and m: "length (?h ! position ?g) mod 3 = 0" by simp_all
  note t = scalePositions_scales_and_preserves [OF p m, of 1000]
  have a0: "fst (scalePositionsFromGeometry ?h ?g 1000) = length ?h"
    using t by (elim conjE)
  have b0: "snd (scalePositionsFromGeometry ?h ?g 1000) ! fst (scalePositionsFromGeometry ?h ?g 1000)
            = map (\<lambda>x. fround (num_mul x (Fin 1000))) (?h ! position ?g)"
    using t by (elim conjE)
  have c: "\<forall>a < length ?h. snd (scalePositionsFromGeometry ?h ?g 1000) ! a = ?h ! a"
    using t by (elim conjE)
  have a: "fst (scalePositionsFromGeometry ?h ?g 1000) = 3" using a0 by simp
  have b: "snd (scalePositionsFromGeometry ?h ?g 1000) ! 3 = [Fin 1000, Fin 2000, Fin 3000]"
    using b0 unfolding a by (simp add: scaled_values del: fround.simps num_mul.simps)
  have c0: "snd (scalePositionsFromGeometry ?h ?g 1000) ! 0 = ?h ! 0"
    using c by (elim allE[where x = 0]) simp
  have c1: "snd (scalePositionsFromGeometry ?h ?g 1000) ! 1 = ?h ! 1"
    using c by (elim allE[where x = 1]) simp
  have c2: "snd (scalePositionsFromGeometry ?h ?g 1000) ! 2 = ?h ! 2"
    using c by (elim allE[where x = 2]) simp
  show ?thesis using a b c0 c1 c2 by simp
qed

end
